theory Spec2Isabelle
  imports Complex_Main
begin

section \<open>The autopoiesis simulation: data model\<close>

text \<open>
  The simulation (\<^verbatim>\<open>autopoiesis-simulacao.py\<close>) keeps Python objects that refer to
  each other: a particle's \<^verbatim>\<open>connections\<close> list holds other particle objects, and the
  rules mutate them in place. The model therefore has an explicit object store
  (\<open>objs\<close>, from object identities to particle records; the identities below
  \<open>next_id\<close> are the objects built so far); every list of particles is a
  list of identities, and Python's \<^verbatim>\<open>==\<close> / \<^verbatim>\<open>in\<close> / \<^verbatim>\<open>list.remove\<close> on particles and
  shapes (classes without \<^verbatim>\<open>__eq__\<close>) are identity comparisons.

  Python floats are modelled as real numbers (exact arithmetic), Python ints that only
  count upwards from 0 as naturals. Every call of the global random source is an input
  of the operation that makes it.
\<close>

datatype ParticleType = SUBSTRATE | CATALYST | LINK

type_synonym pid = nat

type_synonym Vec2d = "real \<times> real"

text \<open>
  A particle builds its own pymunk objects in \<^verbatim>\<open>__init__\<close>: one body, one collision
  shape and, for a LINK, one sensor shape. They are named after the particle that owns
  them; \<open>shape_body\<close> is pymunk's \<^verbatim>\<open>shape.body\<close>.
\<close>

datatype shape_ref = Shape pid | Sensor pid

fun shape_body :: "shape_ref \<Rightarrow> pid" where
  "shape_body (Shape p) = p"
| "shape_body (Sensor p) = p"

record Particle =
  ptype :: ParticleType
  radius :: real
  shape :: shape_ref
  sensor :: "shape_ref option"
  position :: Vec2d
  velocity :: Vec2d
  connections :: "pid list"
  max_connections :: nat
  age :: nat

record DampedSpring =
  joint_id :: nat
  body_a :: pid
  body_b :: pid
  rest_length :: real
  stiffness :: real
  damping :: real

datatype error = ValueError

record Simulation =
  objs :: "pid \<Rightarrow> Particle"
  next_id :: nat
  next_joint :: nat
  particles :: "pid list"
  bonds :: "DampedSpring list"
  to_remove :: "(shape_ref option \<times> DampedSpring option) list"
  space_shapes :: "shape_ref set"
  space_bodies :: "pid set"
  space_constraints :: "DampedSpring set"
  applied_forces :: "(pid \<times> Vec2d \<times> Vec2d) list"
  stdout :: "string list"
  stats :: "nat \<times> nat \<times> nat"

text \<open>Field access through the store, as \<^verbatim>\<open>p.connections\<close> etc. in the source.\<close>

definition conns :: "Simulation \<Rightarrow> pid \<Rightarrow> pid list" where
  "conns s p = connections (objs s p)"

definition pos_of :: "Simulation \<Rightarrow> pid \<Rightarrow> Vec2d" where
  "pos_of s p = position (objs s p)"

section \<open>pymunk's vectors\<close>

text \<open>
  \<^verbatim>\<open>Vec2d.get_distance\<close>, \<^verbatim>\<open>Vec2d.normalized\<close> (the zero vector stays the zero vector) and
  the arithmetic of \<^verbatim>\<open>Vec2d\<close>, and the simulation's own \<^verbatim>\<open>distance\<close>.
\<close>

definition distance :: "Vec2d \<Rightarrow> Vec2d \<Rightarrow> real" where
  "distance pos1 pos2 = sqrt ((fst pos1 - fst pos2)\<^sup>2 + (snd pos1 - snd pos2)\<^sup>2)"

definition get_distance :: "Vec2d \<Rightarrow> Vec2d \<Rightarrow> real" where
  "get_distance v w = sqrt ((fst v - fst w)\<^sup>2 + (snd v - snd w)\<^sup>2)"

definition vlength :: "Vec2d \<Rightarrow> real" where
  "vlength v = sqrt ((fst v)\<^sup>2 + (snd v)\<^sup>2)"

definition vsub :: "Vec2d \<Rightarrow> Vec2d \<Rightarrow> Vec2d" where
  "vsub v w = (fst v - fst w, snd v - snd w)"

definition vadd :: "Vec2d \<Rightarrow> Vec2d \<Rightarrow> Vec2d" where
  "vadd v w = (fst v + fst w, snd v + snd w)"

definition vscale :: "Vec2d \<Rightarrow> real \<Rightarrow> Vec2d" where
  "vscale v k = (fst v * k, snd v * k)"

definition vneg :: "Vec2d \<Rightarrow> Vec2d" where
  "vneg v = (- fst v, - snd v)"

definition normalized :: "Vec2d \<Rightarrow> Vec2d" where
  "normalized v = (if vlength v \<noteq> 0 then (fst v / vlength v, snd v / vlength v) else (0, 0))"

definition center :: Vec2d where
  "center = (800 / 2, 800 / 2)"

section \<open>Creating particles and bonds\<close>

text \<open>
  \<^verbatim>\<open>Particle.__init__\<close>: a fresh object with its body and shapes added to the space. It
  does not touch the simulation's \<^verbatim>\<open>particles\<close> list; the caller appends.
\<close>

definition new_Particle :: "real \<Rightarrow> real \<Rightarrow> ParticleType \<Rightarrow> Simulation \<Rightarrow> pid \<times> Simulation" where
  "new_Particle x y t s =
     (let p = next_id s;
          P = \<lparr>ptype = t,
               radius = (if t \<noteq> CATALYST then 8 else 12),
               shape = Shape p,
               sensor = (if t = LINK then Some (Sensor p) else None),
               position = (x, y),
               velocity = (0, 0),
               connections = [],
               max_connections = (if t = LINK then 2 else 0),
               age = 0\<rparr>
      in (p, s\<lparr>objs := (objs s)(p := P),
                next_id := Suc p,
                space_shapes :=
                  (if t = LINK then insert (Sensor p) (insert (Shape p) (space_shapes s))
                   else insert (Shape p) (space_shapes s)),
                space_bodies := insert p (space_bodies s)\<rparr>))"

definition create_link :: "Vec2d \<Rightarrow> Simulation \<Rightarrow> pid \<times> Simulation" where
  "create_link pos s =
     (let (l, s1) = new_Particle (fst pos) (snd pos) LINK s
      in (l, s1\<lparr>particles := particles s1 @ [l]\<rparr>))"

definition append_connection :: "pid \<Rightarrow> pid \<Rightarrow> Simulation \<Rightarrow> Simulation" where
  "append_connection p q s =
     s\<lparr>objs := (objs s)(p := (objs s p)\<lparr>connections := connections (objs s p) @ [q]\<rparr>)\<rparr>"

definition create_bond :: "pid \<Rightarrow> pid \<Rightarrow> Simulation \<Rightarrow> Simulation" where
  "create_bond p1 p2 s =
     (let joint = \<lparr>joint_id = next_joint s, body_a = p1, body_b = p2,
                   rest_length = radius (objs s p1) * 2.5, stiffness = 150, damping = 1\<rparr>;
          s1 = s\<lparr>next_joint := Suc (next_joint s),
                 space_constraints := insert joint (space_constraints s),
                 bonds := bonds s @ [joint]\<rparr>
      in append_connection p2 p1 (append_connection p1 p2 s1))"

section \<open>The collision callbacks\<close>

text \<open>
  \<^verbatim>\<open>random.choice(xs)\<close> returns \<^verbatim>\<open>xs[k]\<close> for an index \<open>k\<close> below \<^verbatim>\<open>len(xs)\<close> drawn from
  the random source; the draw is the input \<open>k\<close>, reduced to the range.
\<close>

definition random_choice :: "nat \<Rightarrow> 'a list \<Rightarrow> 'a" where
  "random_choice k xs = xs ! (k mod length xs)"

definition nearby_substrates :: "shape_ref \<Rightarrow> Simulation \<Rightarrow> pid list" where
  "nearby_substrates substrate_shape s =
     filter (\<lambda>p. ptype (objs s p) = SUBSTRATE \<and>
                 shape (objs s p) \<noteq> substrate_shape \<and>
                 distance (pos_of s (shape_body substrate_shape)) (pos_of s p) < 40)
            (particles s)"

definition midpoint_of :: "Vec2d \<Rightarrow> Vec2d \<Rightarrow> Vec2d" where
  "midpoint_of v w = ((fst v + fst w) / 2, (snd v + snd w) / 2)"

text \<open>
  \<^verbatim>\<open>handle_catalyst_substrate\<close>; \<open>roll\<close> is the value of \<^verbatim>\<open>random.random()\<close>, \<open>k\<close> the draw
  of \<^verbatim>\<open>random.choice\<close>, \<open>substrate_shape\<close> is \<^verbatim>\<open>arbiter.shapes[1]\<close>.
\<close>

definition handle_catalyst_substrate :: "real \<Rightarrow> nat \<Rightarrow> shape_ref \<Rightarrow> Simulation \<Rightarrow> Simulation" where
  "handle_catalyst_substrate roll k substrate_shape s =
     (if roll < 0.15 then
        (let nearby = nearby_substrates substrate_shape s
         in if nearby \<noteq> [] then
              (let second_substrate = random_choice k nearby;
                   pos = midpoint_of (pos_of s (shape_body substrate_shape)) (pos_of s second_substrate);
                   s1 = snd (create_link pos s)
               in s1\<lparr>to_remove := to_remove s1 @
                       [(Some substrate_shape, None),
                        (Some (shape (objs s1 second_substrate)), None)]\<rparr>)
            else s)
      else s)"

definition p1_candidates :: "shape_ref \<Rightarrow> Simulation \<Rightarrow> pid list" where
  "p1_candidates link_sensor s = filter (\<lambda>p. sensor (objs s p) = Some link_sensor) (particles s)"

definition p2_candidates :: "shape_ref \<Rightarrow> Simulation \<Rightarrow> pid list" where
  "p2_candidates link_shape s = filter (\<lambda>p. shape (objs s p) = link_shape) (particles s)"

definition may_bond :: "pid \<Rightarrow> pid \<Rightarrow> Simulation \<Rightarrow> bool" where
  "may_bond p1 p2 s \<longleftrightarrow>
     p1 \<noteq> p2 \<and>
     length (conns s p1) < max_connections (objs s p1) \<and>
     length (conns s p2) < max_connections (objs s p2) \<and>
     p2 \<notin> set (conns s p1)"

text \<open>\<^verbatim>\<open>handle_link_detection\<close> with \<^verbatim>\<open>arbiter.shapes = (link_sensor, link_shape)\<close>.\<close>

definition handle_link_detection :: "shape_ref \<Rightarrow> shape_ref \<Rightarrow> Simulation \<Rightarrow> Simulation" where
  "handle_link_detection link_sensor link_shape s =
     (case (p1_candidates link_sensor s, p2_candidates link_shape s) of
        (p1 # _, p2 # _) \<Rightarrow> if may_bond p1 p2 s then create_bond p1 p2 s else s
      | _ \<Rightarrow> s)"

section \<open>Removal and the flush of the deferred mutations\<close>

text \<open>
  \<^verbatim>\<open>remove_particle\<close>: the first particle of the list with that shape is taken out of
  the space and out of the list; when there is none, \<^verbatim>\<open>StopIteration\<close> is caught and a
  warning is printed.
\<close>

definition remove_particle :: "shape_ref \<Rightarrow> Simulation \<Rightarrow> Simulation" where
  "remove_particle sh s =
     (case find (\<lambda>p. shape (objs s p) = sh) (particles s) of
        Some particle \<Rightarrow>
          s\<lparr>space_shapes :=
              (case sensor (objs s particle) of
                 Some sn \<Rightarrow> space_shapes s - {sn} - {shape (objs s particle)}
               | None \<Rightarrow> space_shapes s - {shape (objs s particle)}),
            space_bodies := space_bodies s - {particle},
            particles := remove1 particle (particles s)\<rparr>
      | None \<Rightarrow>
          s\<lparr>stdout := stdout s @ [''Warning: Attempted to remove a particle that was not found.'']\<rparr>)"

text \<open>
  One entry of \<^verbatim>\<open>to_remove\<close> in the loop of \<^verbatim>\<open>run\<close>. \<^verbatim>\<open>self.bonds.remove(bond)\<close> raises
  \<^verbatim>\<open>ValueError\<close> when the bond is not in the list.
\<close>

definition flush_entry :: "shape_ref option \<times> DampedSpring option \<Rightarrow> Simulation \<Rightarrow> error + Simulation" where
  "flush_entry e s =
     (let s1 = (case fst e of Some sh \<Rightarrow> remove_particle sh s | None \<Rightarrow> s)
      in case snd e of
           None \<Rightarrow> Inr s1
         | Some bond \<Rightarrow>
             if bond \<in> set (bonds s1)
             then Inr (s1\<lparr>space_constraints := space_constraints s1 - {bond},
                          bonds := remove1 bond (bonds s1)\<rparr>)
             else Inl ValueError)"

fun flush_entries :: "(shape_ref option \<times> DampedSpring option) list \<Rightarrow> Simulation \<Rightarrow> error + Simulation" where
  "flush_entries [] s = Inr s"
| "flush_entries (e # es) s =
     (case flush_entry e s of Inl err \<Rightarrow> Inl err | Inr s1 \<Rightarrow> flush_entries es s1)"

definition flush :: "Simulation \<Rightarrow> error + Simulation" where
  "flush s =
     (case flush_entries (to_remove s) s of
        Inl err \<Rightarrow> Inl err
      | Inr s1 \<Rightarrow> Inr (s1\<lparr>to_remove := []\<rparr>))"

section \<open>Disintegration\<close>

text \<open>
  The inner loop \<^verbatim>\<open>for connected in particle.connections: connected.connections.remove(particle)\<close>.
  Python's list iterator reads the list by index and tests the index against the
  current length at every round, which matters when \<^verbatim>\<open>connected\<close> is \<^verbatim>\<open>particle\<close> itself;
  \<^verbatim>\<open>list.remove\<close> deletes the first occurrence and raises \<^verbatim>\<open>ValueError\<close> when there is none.
\<close>

function disconnect :: "pid \<Rightarrow> nat \<Rightarrow> (pid \<Rightarrow> Particle) \<Rightarrow> error + (pid \<Rightarrow> Particle)" where
  "disconnect particle i h =
     (if i < length (connections (h particle)) then
        (let connected = connections (h particle) ! i
         in if particle \<in> set (connections (h connected))
            then disconnect particle (Suc i)
                   (h(connected := (h connected)\<lparr>connections := remove1 particle (connections (h connected))\<rparr>))
            else Inl ValueError)
      else Inr h)"
  by pat_completeness auto
termination
  by (relation "measure (\<lambda>(particle, i, h). length (connections (h particle)) - i)")
     (auto simp: length_remove1)

declare disconnect.simps [simp del]

text \<open>
  The body of the loop of \<^verbatim>\<open>handle_disintegration\<close> for one particle; \<open>roll particle\<close> is
  the value \<^verbatim>\<open>random.random()\<close> returns for it (drawn only when the age test passes).
  The two new substrates are built in the space; the objects are dropped (\<open>snd\<close>) and
  not appended to \<^verbatim>\<open>self.particles\<close>.
\<close>

definition disintegrate :: "(pid \<Rightarrow> real) \<Rightarrow> pid \<Rightarrow> Simulation \<Rightarrow> error + Simulation" where
  "disintegrate roll particle s =
     (if ptype (objs s particle) = LINK then
        (let s1 = s\<lparr>objs := (objs s)(particle := (objs s particle)\<lparr>age := age (objs s particle) + 1\<rparr>)\<rparr>
         in if age (objs s1 particle) > 2 * 500 \<and> roll particle < 0.01 then
              (case disconnect particle 0 (objs s1) of
                 Inl err \<Rightarrow> Inl err
               | Inr h \<Rightarrow>
                   (let s2 = s1\<lparr>objs := h\<rparr>;
                        pos = position (objs s2 particle);
                        offset = 10;
                        s3 = snd (new_Particle (fst pos + offset) (snd pos) SUBSTRATE s2);
                        s4 = snd (new_Particle (fst pos - offset) (snd pos) SUBSTRATE s3)
                    in Inr (s4\<lparr>to_remove := to_remove s4 @ [(Some (shape (objs s4 particle)), None)]\<rparr>)))
            else Inr s1)
      else Inr s)"

fun disintegrate_all :: "(pid \<Rightarrow> real) \<Rightarrow> pid list \<Rightarrow> Simulation \<Rightarrow> error + Simulation" where
  "disintegrate_all roll [] s = Inr s"
| "disintegrate_all roll (particle # ps) s =
     (case disintegrate roll particle s of
        Inl err \<Rightarrow> Inl err
      | Inr s1 \<Rightarrow> disintegrate_all roll ps s1)"

text \<open>\<^verbatim>\<open>handle_disintegration\<close> walks a copy of the list, \<^verbatim>\<open>list(self.particles)\<close>.\<close>

definition handle_disintegration :: "(pid \<Rightarrow> real) \<Rightarrow> Simulation \<Rightarrow> error + Simulation" where
  "handle_disintegration roll s = disintegrate_all roll (particles s) s"

section \<open>Forces and the boundary\<close>

text \<open>
  \<^verbatim>\<open>body.apply_force_at_local_point(force, point)\<close> is a call into the physics engine;
  the model records the call (body, force, point) and nothing else.
\<close>

definition apply_force_at_local_point :: "pid \<Rightarrow> Vec2d \<Rightarrow> Vec2d \<Rightarrow> Simulation \<Rightarrow> Simulation" where
  "apply_force_at_local_point b force point s =
     s\<lparr>applied_forces := applied_forces s @ [(b, force, point)]\<rparr>"

definition brownian :: "(pid \<Rightarrow> real \<times> real) \<Rightarrow> pid \<Rightarrow> Simulation \<Rightarrow> Simulation" where
  "brownian gauss particle s =
     (if ptype (objs s particle) \<noteq> CATALYST then
        (let s1 = apply_force_at_local_point particle (gauss particle) (0, 0) s;
             distance_to_center = get_distance center (pos_of s1 particle)
         in if distance_to_center > 200 then
              (let direction_to_center = normalized (vsub center (pos_of s1 particle));
                   confinement_force =
                     vscale (vscale direction_to_center (distance_to_center - 200)) 0.5
               in apply_force_at_local_point particle confinement_force (0, 0) s1)
            else s1)
      else s)"

text \<open>\<^verbatim>\<open>apply_brownian_motion\<close>; \<open>gauss particle\<close> is the pair of \<^verbatim>\<open>random.gauss(0, 300)\<close> draws.\<close>

definition apply_brownian_motion :: "(pid \<Rightarrow> real \<times> real) \<Rightarrow> Simulation \<Rightarrow> Simulation" where
  "apply_brownian_motion gauss s = fold (brownian gauss) (particles s) s"

definition boundary_collision :: "pid \<Rightarrow> Simulation \<Rightarrow> Simulation" where
  "boundary_collision particle s =
     (let distance_to_center = get_distance center (pos_of s particle)
      in if distance_to_center \<ge> 200 - radius (objs s particle) then
           (let normal = normalized (vsub (pos_of s particle) center)
            in s\<lparr>objs := (objs s)(particle := (objs s particle)
                   \<lparr>position := vadd center (vscale normal (200 - radius (objs s particle))),
                    velocity := vneg (velocity (objs s particle))\<rparr>)\<rparr>)
         else s)"

definition handle_boundary_collision :: "Simulation \<Rightarrow> Simulation" where
  "handle_boundary_collision s = fold boundary_collision (particles s) s"

definition update_stats :: "Simulation \<Rightarrow> Simulation" where
  "update_stats s =
     s\<lparr>stats := (length (filter (\<lambda>p. ptype (objs s p) = SUBSTRATE) (particles s)),
                 length (filter (\<lambda>p. ptype (objs s p) = LINK) (particles s)),
                 length (bonds s))\<rparr>"

section \<open>Set-up\<close>

definition empty_simulation :: Simulation where
  "empty_simulation =
     \<lparr>objs = (\<lambda>_. undefined), next_id = 0, next_joint = 0, particles = [], bonds = [],
      to_remove = [], space_shapes = {}, space_bodies = {}, space_constraints = {},
      applied_forces = [], stdout = [], stats = (0, 0, 0)\<rparr>"

definition add_particle :: "real \<Rightarrow> real \<Rightarrow> ParticleType \<Rightarrow> Simulation \<Rightarrow> Simulation" where
  "add_particle x y t s =
     (let (p, s1) = new_Particle x y t s in s1\<lparr>particles := particles s1 @ [p]\<rparr>)"

text \<open>
  \<^verbatim>\<open>setup_simulation\<close>: the catalyst at the centre, then 300 substrates; \<open>rnd i\<close> is the
  pair (angle, r) of \<^verbatim>\<open>random.uniform\<close> draws of round \<open>i\<close>.
\<close>

definition add_substrate :: "(nat \<Rightarrow> real \<times> real) \<Rightarrow> nat \<Rightarrow> Simulation \<Rightarrow> Simulation" where
  "add_substrate rnd i s =
     (let angle = fst (rnd i); r = snd (rnd i)
      in add_particle (800 / 2 + r * cos angle) (800 / 2 + r * sin angle) SUBSTRATE s)"

definition setup_simulation :: "(nat \<Rightarrow> real \<times> real) \<Rightarrow> Simulation" where
  "setup_simulation rnd =
     fold (add_substrate rnd) [0..<300] (add_particle (800 / 2) (800 / 2) CATALYST empty_simulation)"

section \<open>The physics step and the tick\<close>

text \<open>
  \<^verbatim>\<open>space.step\<close> belongs to the physics engine. What the simulation sees of it is that
  bodies move and that the two registered callbacks run, in an order the engine
  chooses: a step is a list of such actions. The engine calls a handler only for
  shapes of the collision types it was registered for (\<^verbatim>\<open>setup_collision_handlers\<close>);
  \<open>collision_type\<close> is the value \<^verbatim>\<open>Particle.__init__\<close> gave the shape.
\<close>

datatype physics_action =
    Move "pid \<Rightarrow> Vec2d \<times> Vec2d"
  | Separate real nat shape_ref
  | Begin shape_ref shape_ref

fun type_value :: "ParticleType \<Rightarrow> nat" where
  "type_value SUBSTRATE = 1"
| "type_value CATALYST = 2"
| "type_value LINK = 3"

fun collision_type :: "Simulation \<Rightarrow> shape_ref \<Rightarrow> nat" where
  "collision_type s (Shape p) = type_value (ptype (objs s p))"
| "collision_type s (Sensor p) = 10"

fun shape_exists :: "Simulation \<Rightarrow> shape_ref \<Rightarrow> bool" where
  "shape_exists s (Shape p) \<longleftrightarrow> p < next_id s"
| "shape_exists s (Sensor p) \<longleftrightarrow> p < next_id s \<and> ptype (objs s p) = LINK"

fun action_ok :: "Simulation \<Rightarrow> physics_action \<Rightarrow> bool" where
  "action_ok s (Move f) \<longleftrightarrow> True"
| "action_ok s (Separate roll k substrate_shape) \<longleftrightarrow>
     shape_exists s substrate_shape \<and> collision_type s substrate_shape = type_value SUBSTRATE"
| "action_ok s (Begin link_sensor link_shape) \<longleftrightarrow>
     shape_exists s link_sensor \<and> collision_type s link_sensor = 10 \<and>
     shape_exists s link_shape \<and> collision_type s link_shape = type_value LINK"

definition move_bodies :: "(pid \<Rightarrow> Vec2d \<times> Vec2d) \<Rightarrow> Simulation \<Rightarrow> Simulation" where
  "move_bodies f s =
     s\<lparr>objs := (\<lambda>p. (objs s p)\<lparr>position := fst (f p), velocity := snd (f p)\<rparr>)\<rparr>"

fun run_action :: "physics_action \<Rightarrow> Simulation \<Rightarrow> Simulation" where
  "run_action (Move f) s = move_bodies f s"
| "run_action (Separate roll k substrate_shape) s = handle_catalyst_substrate roll k substrate_shape s"
| "run_action (Begin link_sensor link_shape) s = handle_link_detection link_sensor link_shape s"

fun space_step :: "physics_action list \<Rightarrow> Simulation \<Rightarrow> Simulation" where
  "space_step [] s = s"
| "space_step (a # as) s = space_step as (run_action a s)"

fun actions_ok :: "Simulation \<Rightarrow> physics_action list \<Rightarrow> bool" where
  "actions_ok s [] \<longleftrightarrow> True"
| "actions_ok s (a # as) \<longleftrightarrow> action_ok s a \<and> actions_ok (run_action a s) as"

text \<open>One round of the loop of \<^verbatim>\<open>run\<close> (drawing and input handling left out).\<close>

definition tick ::
  "physics_action list \<Rightarrow> (pid \<Rightarrow> real \<times> real) \<Rightarrow> (pid \<Rightarrow> real) \<Rightarrow> Simulation \<Rightarrow> error + Simulation" where
  "tick acts gauss roll s =
     (let s1 = space_step acts s;
          s2 = apply_brownian_motion gauss s1
      in case handle_disintegration roll s2 of
           Inl err \<Rightarrow> Inl err
         | Inr s3 \<Rightarrow>
             (case flush (handle_boundary_collision s3) of
                Inl err \<Rightarrow> Inl err
              | Inr s5 \<Rightarrow> Inr (update_stats s5)))"

text \<open>
  The single operations of the engine, for properties that hold whatever the order in
  which they run.
\<close>

datatype operation =
    Physics physics_action
  | Brownian "pid \<Rightarrow> real \<times> real"
  | Disintegration "pid \<Rightarrow> real"
  | Boundary
  | Flush
  | Stats

fun operation_ok :: "Simulation \<Rightarrow> operation \<Rightarrow> bool" where
  "operation_ok s (Physics a) \<longleftrightarrow> action_ok s a"
| "operation_ok s _ \<longleftrightarrow> True"

fun run_operation :: "operation \<Rightarrow> Simulation \<Rightarrow> error + Simulation" where
  "run_operation (Physics a) s = Inr (run_action a s)"
| "run_operation (Brownian gauss) s = Inr (apply_brownian_motion gauss s)"
| "run_operation (Disintegration roll) s = handle_disintegration roll s"
| "run_operation Boundary s = Inr (handle_boundary_collision s)"
| "run_operation Flush s = flush s"
| "run_operation Stats s = Inr (update_stats s)"

inductive reachable :: "Simulation \<Rightarrow> bool" where
  init: "reachable (setup_simulation rnd)"
| step: "reachable s \<Longrightarrow> operation_ok s op \<Longrightarrow> run_operation op s = Inr t \<Longrightarrow> reachable t"

inductive tick_reachable :: "Simulation \<Rightarrow> bool" where
  start: "tick_reachable (setup_simulation rnd)"
| next_tick: "tick_reachable s \<Longrightarrow> actions_ok s acts \<Longrightarrow> tick acts gauss roll s = Inr t \<Longrightarrow>
     tick_reachable t"

section \<open>Invariants of the engine: definitions\<close>

definition built :: "pid \<Rightarrow> Particle \<Rightarrow> bool" where
  "built p P \<longleftrightarrow>
     shape P = Shape p \<and>
     sensor P = (if ptype P = LINK then Some (Sensor p) else None) \<and>
     radius P = (if ptype P \<noteq> CATALYST then 8 else 12) \<and>
     max_connections P = (if ptype P = LINK then 2 else 0)"

definition static :: "Particle \<Rightarrow> ParticleType \<times> real \<times> shape_ref \<times> shape_ref option \<times> nat" where
  "static P = (ptype P, radius P, shape P, sensor P, max_connections P)"

definition wf :: "Simulation \<Rightarrow> bool" where
  "wf s \<longleftrightarrow>
     (\<forall>p < next_id s. built p (objs s p)) \<and>
     (\<forall>p \<in> set (particles s). p < next_id s) \<and>
     distinct (particles s)"

definition degree_ok :: "Simulation \<Rightarrow> bool" where
  "degree_ok s \<longleftrightarrow> (\<forall>p < next_id s. length (conns s p) \<le> max_connections (objs s p))"

definition shrinks :: "Simulation \<Rightarrow> Simulation \<Rightarrow> bool" where
  "shrinks s t \<longleftrightarrow>
     next_id s \<le> next_id t \<and> particles t = particles s \<and> bonds t = bonds s \<and>
     (\<forall>q < next_id s. static (objs t q) = static (objs s q) \<and>
         length (conns t q) \<le> length (conns s q) \<and> set (conns t q) \<subseteq> set (conns s q)) \<and>
     (\<forall>q. next_id s \<le> q \<and> q < next_id t \<longrightarrow> built q (objs t q) \<and> conns t q = [])"

definition setup_upto :: "(nat \<Rightarrow> real \<times> real) \<Rightarrow> nat \<Rightarrow> Simulation" where
  "setup_upto rnd n = fold (add_substrate rnd) [0..<n] (add_particle (800 / 2) (800 / 2) CATALYST empty_simulation)"

definition two_links :: Simulation where
  "two_links = snd (create_link (10, 0) (snd (create_link (0, 0) empty_simulation)))"

definition no_bond_pending :: "Simulation \<Rightarrow> bool" where
  "no_bond_pending s \<longleftrightarrow> (\<forall>e \<in> set (to_remove s). snd e = None)"

fun run_operations :: "operation list \<Rightarrow> Simulation \<Rightarrow> error + Simulation" where
  "run_operations [] s = Inr s"
| "run_operations (op # ops) s =
     (case run_operation op s of Inl err \<Rightarrow> Inl err | Inr s1 \<Rightarrow> run_operations ops s1)"

fun operations_ok :: "Simulation \<Rightarrow> operation list \<Rightarrow> bool" where
  "operations_ok s [] \<longleftrightarrow> True"
| "operations_ok s (op # ops) \<longleftrightarrow>
     operation_ok s op \<and> (case run_operation op s of Inl err \<Rightarrow> True | Inr s1 \<Rightarrow> operations_ok s1 ops)"

definition grows :: "Simulation \<Rightarrow> Simulation \<Rightarrow> bool" where
  "grows s t \<longleftrightarrow>
     (\<exists>js. bonds t = bonds s @ js) \<and>
     (\<exists>es. to_remove t = to_remove s @ es \<and> (\<forall>e \<in> set es. snd e = None))"

definition registry_eq :: "Simulation \<Rightarrow> Simulation \<Rightarrow> bool" where
  "registry_eq t1 t2 \<longleftrightarrow>
     objs t1 = objs t2 \<and> next_id t1 = next_id t2 \<and> next_joint t1 = next_joint t2 \<and>
     particles t1 = particles t2 \<and> bonds t1 = bonds t2 \<and> to_remove t1 = to_remove t2 \<and>
     space_shapes t1 = space_shapes t2 \<and> space_bodies t1 = space_bodies t2 \<and>
     space_constraints t1 = space_constraints t2 \<and> applied_forces t1 = applied_forces t2 \<and>
     stats t1 = stats t2"

definition same_registry :: "error + Simulation \<Rightarrow> error + Simulation \<Rightarrow> bool" where
  "same_registry r1 r2 \<longleftrightarrow>
     (case (r1, r2) of
        (Inr t1, Inr t2) \<Rightarrow> registry_eq t1 t2
      | (Inl e1, Inl e2) \<Rightarrow> e1 = e2
      | _ \<Rightarrow> False)"

definition absent :: "shape_ref \<Rightarrow> Simulation \<Rightarrow> bool" where
  "absent sh s \<longleftrightarrow> find (\<lambda>p. shape (objs s p) = sh) (particles s) = None"

definition not_found_warning :: string where
  "not_found_warning = ''Warning: Attempted to remove a particle that was not found.''"

definition pending :: "Simulation \<Rightarrow> pid \<Rightarrow> bool" where
  "pending s q \<longleftrightarrow> (Some (Shape q), None) \<in> set (to_remove s)"

definition rnd_center :: "nat \<Rightarrow> real \<times> real" where
  "rnd_center i = (0, 0)"

definition crowded :: Simulation where
  "crowded = setup_simulation rnd_center"

definition crowded1 :: Simulation where
  "crowded1 = handle_catalyst_substrate 0 0 (Shape 1) crowded"

definition crowded2 :: Simulation where
  "crowded2 = handle_catalyst_substrate 0 0 (Shape 3) crowded1"

definition pending_built :: "Simulation \<Rightarrow> bool" where
  "pending_built s \<longleftrightarrow> (\<forall>q. pending s q \<longrightarrow> q < next_id s)"

definition unlink :: "pid \<Rightarrow> pid set \<Rightarrow> (pid \<Rightarrow> Particle) \<Rightarrow> pid \<Rightarrow> Particle" where
  "unlink p C h = (\<lambda>x. if x \<in> C then (h x)\<lparr>connections := remove1 p (connections (h x))\<rparr> else h x)"

definition confinement_force :: "Vec2d \<Rightarrow> Vec2d" where
  "confinement_force pos =
     vscale (vscale (normalized (vsub center pos)) (get_distance center pos - 200)) 0.5"

definition submitted_forces :: "(pid \<Rightarrow> real \<times> real) \<Rightarrow> Simulation \<Rightarrow> pid \<Rightarrow> (pid \<times> Vec2d \<times> Vec2d) list" where
  "submitted_forces gauss s p =
     (if ptype (objs s p) = CATALYST then []
      else if get_distance center (pos_of s p) > 200
           then [(p, gauss p, (0, 0)), (p, confinement_force (pos_of s p), (0, 0))]
           else [(p, gauss p, (0, 0))])"

definition gauss_zero :: "pid \<Rightarrow> real \<times> real" where
  "gauss_zero p = (0, 0)"

definition outlier :: Simulation where
  "outlier = add_particle 700 400 SUBSTRATE empty_simulation"

definition push :: "pid \<Rightarrow> Vec2d \<times> Vec2d" where
  "push p = ((650, 400), (3, 4))"

definition pushed :: Simulation where
  "pushed = move_bodies push outlier"

definition link_pair :: Simulation where
  "link_pair = snd (create_link (410, 400) (snd (create_link (400, 400) empty_simulation)))"

definition bonded_pair :: Simulation where
  "bonded_pair = handle_link_detection (Sensor 0) (Shape 1) link_pair"

definition aged_pair :: Simulation where
  "aged_pair = bonded_pair\<lparr>objs := (objs bonded_pair)(0 := (objs bonded_pair 0)\<lparr>age := 1000\<rparr>)\<rparr>"

definition roll_zero :: "pid \<Rightarrow> real" where
  "roll_zero p = 0"

definition aged_pair2 :: Simulation where
  "aged_pair2 = apply_brownian_motion gauss_zero aged_pair"

definition crowded3 :: Simulation where
  "crowded3 = handle_link_detection (Sensor 301) (Shape 302) crowded2"

section \<open>Basic facts about the operations\<close>

text \<open>Lists of numbers stay intervals: no unrolling of \<open>[0..<301]\<close>.\<close>

declare upt_rec_numeral [simp del]

text \<open>Particle 1 stays \<open>1\<close>.\<close>

declare One_nat_def [simp del]

lemma built_static: "static P = static Q \<Longrightarrow> built p P = built p Q"
  by (simp add: built_def static_def)

lemma new_Particle_fields [simp]:
  "fst (new_Particle x y t s) = next_id s"
  "next_id (snd (new_Particle x y t s)) = Suc (next_id s)"
  "particles (snd (new_Particle x y t s)) = particles s"
  "bonds (snd (new_Particle x y t s)) = bonds s"
  "to_remove (snd (new_Particle x y t s)) = to_remove s"
  "q \<noteq> next_id s \<Longrightarrow> objs (snd (new_Particle x y t s)) q = objs s q"
  "built (next_id s) (objs (snd (new_Particle x y t s)) (next_id s))"
  "connections (objs (snd (new_Particle x y t s)) (next_id s)) = []"
  "ptype (objs (snd (new_Particle x y t s)) (next_id s)) = t"
  "position (objs (snd (new_Particle x y t s)) (next_id s)) = (x, y)"
  by (simp_all add: new_Particle_def Let_def built_def)

lemma create_link_fields [simp]:
  "fst (create_link pos s) = next_id s"
  "next_id (snd (create_link pos s)) = Suc (next_id s)"
  "particles (snd (create_link pos s)) = particles s @ [next_id s]"
  "bonds (snd (create_link pos s)) = bonds s"
  "to_remove (snd (create_link pos s)) = to_remove s"
  "q \<noteq> next_id s \<Longrightarrow> objs (snd (create_link pos s)) q = objs s q"
  "built (next_id s) (objs (snd (create_link pos s)) (next_id s))"
  "connections (objs (snd (create_link pos s)) (next_id s)) = []"
  "ptype (objs (snd (create_link pos s)) (next_id s)) = LINK"
  "position (objs (snd (create_link pos s)) (next_id s)) = pos"
  by (simp_all add: create_link_def split_beta)

lemma wf_empty: "wf empty_simulation"
  by (simp add: wf_def empty_simulation_def)

lemma wf_add_particle: "wf s \<Longrightarrow> wf (add_particle x y t s)"
  by (auto simp: wf_def add_particle_def split_beta less_Suc_eq)

lemma wf_fold_add_substrate: "wf s \<Longrightarrow> wf (fold (add_substrate rnd) is s)"
  by (induction "is" arbitrary: s) (simp_all add: add_substrate_def Let_def wf_add_particle)

lemma wf_setup: "wf (setup_simulation rnd)"
  unfolding setup_simulation_def by (intro wf_fold_add_substrate wf_add_particle wf_empty)

lemma wf_move: "wf s \<Longrightarrow> wf (move_bodies f s)"
  by (simp add: wf_def move_bodies_def built_def)

lemma wf_create_link: "wf s \<Longrightarrow> wf (snd (create_link pos s))"
  by (auto simp: wf_def less_Suc_eq)

lemma hcs_idle:
  "\<not> (roll < 0.15 \<and> nearby_substrates sh s \<noteq> []) \<Longrightarrow> handle_catalyst_substrate roll k sh s = s"
  by (auto simp: handle_catalyst_substrate_def Let_def)

lemma hcs_fires:
  assumes "roll < 0.15" and "nearby_substrates sh s \<noteq> []"
  shows "handle_catalyst_substrate roll k sh s =
     (let second = random_choice k (nearby_substrates sh s);
          s1 = snd (create_link (midpoint_of (pos_of s (shape_body sh)) (pos_of s second)) s)
      in s1\<lparr>to_remove := to_remove s @ [(Some sh, None), (Some (shape (objs s1 second)), None)]\<rparr>)"
  using assms
  by (simp add: handle_catalyst_substrate_def Let_def)

lemma wf_to_remove [simp]: "wf (s\<lparr>to_remove := r\<rparr>) = wf s"
  by (simp add: wf_def)

lemma wf_hcs: "wf s \<Longrightarrow> wf (handle_catalyst_substrate roll k sh s)"
  by (cases "roll < 0.15 \<and> nearby_substrates sh s \<noteq> []")
     (simp_all add: hcs_idle hcs_fires Let_def wf_create_link)

lemma wf_create_bond: "wf s \<Longrightarrow> wf (create_bond p1 p2 s)"
  by (auto simp: wf_def create_bond_def append_connection_def built_def Let_def)

lemma wf_hld: "wf s \<Longrightarrow> wf (handle_link_detection a b s)"
  by (auto simp: handle_link_detection_def wf_create_bond split: list.splits)

lemma fold_brownian_fields:
  "objs (fold (brownian g) ps s) = objs s \<and> next_id (fold (brownian g) ps s) = next_id s \<and>
   particles (fold (brownian g) ps s) = particles s"
  by (induction ps arbitrary: s) (simp_all add: brownian_def apply_force_at_local_point_def Let_def)

lemma wf_brownian: "wf s \<Longrightarrow> wf (apply_brownian_motion g s)"
  by (simp add: wf_def apply_brownian_motion_def fold_brownian_fields)

lemma boundary_collision_fields:
  "next_id (boundary_collision p s) = next_id s \<and> particles (boundary_collision p s) = particles s \<and>
   static (objs (boundary_collision p s) q) = static (objs s q) \<and>
   connections (objs (boundary_collision p s) q) = connections (objs s q)"
  by (simp add: boundary_collision_def Let_def static_def)

lemma wf_boundary_collision: "wf s \<Longrightarrow> wf (boundary_collision p s)"
proof -
  have "built q (objs (boundary_collision p s) q) = built q (objs s q)" for q
    by (rule built_static) (simp add: boundary_collision_fields)
  then show "wf s \<Longrightarrow> wf (boundary_collision p s)"
    by (simp add: wf_def boundary_collision_fields)
qed

lemma wf_fold_boundary: "wf s \<Longrightarrow> wf (fold boundary_collision ps s)"
  by (induction ps arbitrary: s) (simp_all add: wf_boundary_collision)

lemma wf_boundary: "wf s \<Longrightarrow> wf (handle_boundary_collision s)"
  by (simp add: handle_boundary_collision_def wf_fold_boundary)

lemma wf_stats: "wf s \<Longrightarrow> wf (update_stats s)"
  by (simp add: wf_def update_stats_def)

lemma remove_particle_fields:
  "objs (remove_particle sh s) = objs s \<and> next_id (remove_particle sh s) = next_id s \<and>
   bonds (remove_particle sh s) = bonds s \<and> to_remove (remove_particle sh s) = to_remove s"
  by (simp add: remove_particle_def split: option.splits)

lemma particles_remove_particle:
  "particles (remove_particle sh s) =
     (case find (\<lambda>p. shape (objs s p) = sh) (particles s) of
        Some p \<Rightarrow> remove1 p (particles s) | None \<Rightarrow> particles s)"
  by (simp add: remove_particle_def split: option.splits)

lemma wf_remove_particle: "wf s \<Longrightarrow> wf (remove_particle sh s)"
  by (auto simp: wf_def remove_particle_fields particles_remove_particle split: option.splits
           dest: notin_set_remove1)

lemma wf_flush_entry: "wf s \<Longrightarrow> flush_entry e s = Inr t \<Longrightarrow> wf t"
  by (cases e) (auto simp: flush_entry_def Let_def wf_def remove_particle_fields
       particles_remove_particle split: option.splits if_splits dest: notin_set_remove1)

lemma wf_flush_entries: "wf s \<Longrightarrow> flush_entries es s = Inr t \<Longrightarrow> wf t"
  by (induction es arbitrary: s) (auto split: sum.splits dest: wf_flush_entry)

lemma wf_flush: "wf s \<Longrightarrow> flush s = Inr t \<Longrightarrow> wf t"
  by (auto simp: flush_def split: sum.splits dest: wf_flush_entries)

text \<open>disconnect only rewrites connections lists, and only shortens them\<close>

lemma disconnect_frame:
  "disconnect p i h = Inr h' \<Longrightarrow>
     static (h' q) = static (h q) \<and>
     length (connections (h' q)) \<le> length (connections (h q)) \<and>
     set (connections (h' q)) \<subseteq> set (connections (h q))"
proof (induction p i h rule: disconnect.induct)
  case (1 particle i h)
  let ?c = "connections (h particle) ! i"
  let ?h1 = "h(?c := (h ?c)\<lparr>connections := remove1 particle (connections (h ?c))\<rparr>)"
  show ?case
  proof (cases "i < length (connections (h particle))")
    case False
    from "1.prems" have "disconnect particle i h = Inr h'" .
    then have "h' = h" using False by (subst (asm) disconnect.simps) simp
    then show ?thesis by simp
  next
    case True
    from "1.prems" have "disconnect particle i h = Inr h'" .
    then have mem: "particle \<in> set (connections (h ?c))"
      and rec: "disconnect particle (Suc i) ?h1 = Inr h'"
      using True by (subst (asm) disconnect.simps, simp add: Let_def split: if_splits)+
    from "1.IH"[OF True refl mem rec]
    have ih: "static (h' q) = static (?h1 q) \<and>
       length (connections (h' q)) \<le> length (connections (?h1 q)) \<and>
       set (connections (h' q)) \<subseteq> set (connections (?h1 q))" .
    show ?thesis
    proof (cases "q = ?c")
      case True
      have "length (remove1 particle (connections (h ?c))) \<le> length (connections (h ?c))"
        by (simp add: length_remove1)
      moreover have "set (remove1 particle (connections (h ?c))) \<subseteq> set (connections (h ?c))"
        by (rule set_remove1_subset)
      ultimately show ?thesis using ih True by (auto simp: static_def)
    next
      case False
      with ih show ?thesis by simp
    qed
  qed
qed

lemma disintegrate_cases:
  assumes "disintegrate roll p s = Inr t"
  obtains
    (idle) "ptype (objs s p) \<noteq> LINK" "t = s"
  | (aged) "ptype (objs s p) = LINK" "\<not> (age (objs s p) + 1 > 1000 \<and> roll p < 0.01)"
      "t = s\<lparr>objs := (objs s)(p := (objs s p)\<lparr>age := age (objs s p) + 1\<rparr>)\<rparr>"
  | (fired) h where "ptype (objs s p) = LINK" "age (objs s p) + 1 > 1000" "roll p < 0.01"
      "disconnect p 0 ((objs s)(p := (objs s p)\<lparr>age := age (objs s p) + 1\<rparr>)) = Inr h"
      "t = (let pos = position (h p);
                s3 = snd (new_Particle (fst pos + 10) (snd pos) SUBSTRATE (s\<lparr>objs := h\<rparr>));
                s4 = snd (new_Particle (fst pos - 10) (snd pos) SUBSTRATE s3)
            in s4\<lparr>to_remove := to_remove s @ [(Some (shape (objs s4 p)), None)]\<rparr>)"
proof (cases "ptype (objs s p) = LINK")
  case False
  with assms have "t = s" by (simp add: disintegrate_def)
  with False show ?thesis by (rule idle)
next
  case link: True
  show ?thesis
  proof (cases "age (objs s p) + 1 > 1000 \<and> roll p < 0.01")
    case False
    with assms link have "t = s\<lparr>objs := (objs s)(p := (objs s p)\<lparr>age := age (objs s p) + 1\<rparr>)\<rparr>"
      by (auto simp: disintegrate_def Let_def)
    with link False show ?thesis by (rule aged)
  next
    case True
    with assms link obtain h where
      h: "disconnect p 0 ((objs s)(p := (objs s p)\<lparr>age := age (objs s p) + 1\<rparr>)) = Inr h"
      by (auto simp: disintegrate_def Let_def split: sum.splits)
    with assms link True have
      "t = (let pos = position (h p);
                s3 = snd (new_Particle (fst pos + 10) (snd pos) SUBSTRATE (s\<lparr>objs := h\<rparr>));
                s4 = snd (new_Particle (fst pos - 10) (snd pos) SUBSTRATE s3)
            in s4\<lparr>to_remove := to_remove s @ [(Some (shape (objs s4 p)), None)]\<rparr>)"
      by (simp add: disintegrate_def Let_def)
    with link True h show ?thesis by (intro fired) auto
  qed
qed

text \<open>what one round of the disintegration loop does to the store\<close>

lemma shrinks_refl: "shrinks s s"
  by (auto simp: shrinks_def)

lemma shrinks_trans:
  assumes st: "shrinks s t" and tu: "shrinks t u"
  shows "shrinks s u"
proof -
  have old: "static (objs u q) = static (objs s q) \<and>
         length (conns u q) \<le> length (conns s q) \<and> set (conns u q) \<subseteq> set (conns s q)"
    if "q < next_id s" for q
  proof -
    from that st have "q < next_id t" by (simp add: shrinks_def)
    with tu have "static (objs u q) = static (objs t q) \<and>
         length (conns u q) \<le> length (conns t q) \<and> set (conns u q) \<subseteq> set (conns t q)"
      by (simp add: shrinks_def)
    moreover from that st have "static (objs t q) = static (objs s q) \<and>
         length (conns t q) \<le> length (conns s q) \<and> set (conns t q) \<subseteq> set (conns s q)"
      by (simp add: shrinks_def)
    ultimately show ?thesis by auto
  qed
  have new: "built q (objs u q) \<and> conns u q = []" if "next_id s \<le> q" "q < next_id u" for q
  proof (cases "q < next_id t")
    case True
    with that st have b: "built q (objs t q) \<and> conns t q = []" by (simp add: shrinks_def)
    from True tu have "static (objs u q) = static (objs t q) \<and> length (conns u q) \<le> length (conns t q)"
      by (simp add: shrinks_def)
    with b show ?thesis using built_static[of "objs u q" "objs t q" q] by simp
  next
    case False
    with that tu show ?thesis by (simp add: shrinks_def)
  qed
  from st tu have "next_id s \<le> next_id u" "particles u = particles s" "bonds u = bonds s"
    by (simp_all add: shrinks_def)
  with old new show ?thesis unfolding shrinks_def by blast
qed

lemma disintegrate_shrinks:
  assumes "disintegrate roll p s = Inr t"
  shows "shrinks s t"
  using assms
proof (cases rule: disintegrate_cases)
  case idle
  then show ?thesis by (simp add: shrinks_refl)
next
  case aged
  then show ?thesis by (auto simp: shrinks_def static_def conns_def)
next
  case (fired h)
  let ?h0 = "(objs s)(p := (objs s p)\<lparr>age := age (objs s p) + 1\<rparr>)"
  have fr: "static (h q) = static (objs s q) \<and>
     length (connections (h q)) \<le> length (connections (objs s q)) \<and>
     set (connections (h q)) \<subseteq> set (connections (objs s q))" for q
    using disconnect_frame[OF fired(4), of q] by (auto simp: static_def)
  let ?s2 = "s\<lparr>objs := h\<rparr>"
  let ?s3 = "snd (new_Particle (fst (position (h p)) + 10) (snd (position (h p))) SUBSTRATE ?s2)"
  let ?s4 = "snd (new_Particle (fst (position (h p)) - 10) (snd (position (h p))) SUBSTRATE ?s3)"
  have t: "t = ?s4\<lparr>to_remove := to_remove s @ [(Some (shape (objs ?s4 p)), None)]\<rparr>"
    using fired(5) by (simp add: Let_def)
  have n3: "next_id ?s3 = Suc (next_id s)" by (simp add: new_Particle_fields)
  have n4: "next_id ?s4 = Suc (Suc (next_id s))" by (simp add: new_Particle_fields)
  have o_old: "objs ?s4 q = h q" if "q < next_id s" for q
    using that by (simp add: new_Particle_fields)
  have o3: "objs ?s4 (next_id s) = objs ?s3 (next_id s)"
    by (simp add: new_Particle_fields)
  have b3: "built (next_id s) (objs ?s3 (next_id s)) \<and> connections (objs ?s3 (next_id s)) = []"
    using new_Particle_fields(7,8)[where s = ?s2] by simp
  have b4: "built (Suc (next_id s)) (objs ?s4 (Suc (next_id s))) \<and>
     connections (objs ?s4 (Suc (next_id s))) = []"
    using new_Particle_fields(7,8)[where s = ?s3] n3 by simp
  have new: "built q (objs ?s4 q) \<and> connections (objs ?s4 q) = []"
    if "next_id s \<le> q" "q < Suc (Suc (next_id s))" for q
  proof -
    from that have "q = next_id s \<or> q = Suc (next_id s)" by arith
    then show ?thesis using b3 b4 o3 by auto
  qed
  show ?thesis
    unfolding shrinks_def t
    using fr o_old new n4 by (simp add: new_Particle_fields conns_def)
qed

lemma disintegrate_all_shrinks: "disintegrate_all roll ps s = Inr t \<Longrightarrow> shrinks s t"
proof (induction ps arbitrary: s)
  case Nil
  then show ?case by (simp add: shrinks_refl)
next
  case (Cons p ps)
  then obtain s1 where "disintegrate roll p s = Inr s1" "disintegrate_all roll ps s1 = Inr t"
    by (auto split: sum.splits)
  then show ?case using Cons.IH disintegrate_shrinks shrinks_trans by blast
qed

lemma shrinks_wf:
  assumes "shrinks s t" and "wf s"
  shows "wf t"
proof -
  have "built p (objs t p)" if "p < next_id t" for p
  proof (cases "p < next_id s")
    case True
    with assms have "static (objs t p) = static (objs s p)" "built p (objs s p)"
      by (simp_all add: shrinks_def wf_def)
    then show ?thesis using built_static by blast
  next
    case False
    with that assms(1) show ?thesis by (simp add: shrinks_def)
  qed
  moreover from assms have "\<forall>p \<in> set (particles t). p < next_id t"
    by (auto simp: shrinks_def wf_def)
  moreover from assms have "distinct (particles t)"
    by (simp add: shrinks_def wf_def)
  ultimately show ?thesis by (simp add: wf_def)
qed

lemma shrinks_degree:
  assumes "shrinks s t" and "degree_ok s"
  shows "degree_ok t"
proof -
  have "length (conns t p) \<le> max_connections (objs t p)" if "p < next_id t" for p
  proof (cases "p < next_id s")
    case True
    with assms have "static (objs t p) = static (objs s p)" "length (conns t p) \<le> length (conns s p)"
      "length (conns s p) \<le> max_connections (objs s p)"
      by (simp_all add: shrinks_def degree_ok_def)
    then show ?thesis by (simp add: static_def)
  next
    case False
    with that assms(1) show ?thesis by (simp add: shrinks_def)
  qed
  then show ?thesis by (simp add: degree_ok_def)
qed

lemma add_particle_fields [simp]:
  "next_id (add_particle x y t s) = Suc (next_id s)"
  "particles (add_particle x y t s) = particles s @ [next_id s]"
  "bonds (add_particle x y t s) = bonds s"
  "to_remove (add_particle x y t s) = to_remove s"
  "q \<noteq> next_id s \<Longrightarrow> objs (add_particle x y t s) q = objs s q"
  "built (next_id s) (objs (add_particle x y t s) (next_id s))"
  "connections (objs (add_particle x y t s) (next_id s)) = []"
  "ptype (objs (add_particle x y t s) (next_id s)) = t"
  "position (objs (add_particle x y t s) (next_id s)) = (x, y)"
  by (simp_all add: add_particle_def split_beta)

lemma degree_ok_fresh:
  assumes "degree_ok s" and "next_id t = Suc (next_id s)"
    and "\<And>q. q < next_id s \<Longrightarrow> objs t q = objs s q"
    and "connections (objs t (next_id s)) = []"
  shows "degree_ok t"
  unfolding degree_ok_def
proof (intro allI impI)
  fix p assume "p < next_id t"
  with assms(2) have "p < next_id s \<or> p = next_id s" by arith
  then show "length (conns t p) \<le> max_connections (objs t p)"
    using assms(1,3,4) by (auto simp: degree_ok_def conns_def)
qed

lemma degree_ok_add_particle: "degree_ok s \<Longrightarrow> degree_ok (add_particle x y t s)"
  by (rule degree_ok_fresh[where s = s]) simp_all

lemma degree_ok_fold_add_substrate: "degree_ok s \<Longrightarrow> degree_ok (fold (add_substrate rnd) is s)"
  by (induction "is" arbitrary: s) (simp_all add: add_substrate_def Let_def degree_ok_add_particle)

lemma degree_ok_setup: "degree_ok (setup_simulation rnd)"
  unfolding setup_simulation_def
  by (intro degree_ok_fold_add_substrate degree_ok_add_particle) (simp add: degree_ok_def empty_simulation_def)

lemma degree_ok_move: "degree_ok s \<Longrightarrow> degree_ok (move_bodies f s)"
  by (simp add: degree_ok_def move_bodies_def conns_def)

lemma degree_ok_to_remove [simp]: "degree_ok (s\<lparr>to_remove := r\<rparr>) = degree_ok s"
  by (simp add: degree_ok_def conns_def)

lemma degree_ok_hcs: "degree_ok s \<Longrightarrow> degree_ok (handle_catalyst_substrate roll k sh s)"
proof (cases "roll < 0.15 \<and> nearby_substrates sh s \<noteq> []")
  case False
  then show "degree_ok s \<Longrightarrow> ?thesis" by (simp add: hcs_idle)
next
  case True
  assume d: "degree_ok s"
  have "degree_ok (snd (create_link pos s))" for pos
    by (rule degree_ok_fresh[OF d]) simp_all
  with True show ?thesis by (simp add: hcs_fires Let_def)
qed

lemma create_bond_fields [simp]:
  "next_id (create_bond p1 p2 s) = next_id s"
  "particles (create_bond p1 p2 s) = particles s"
  "to_remove (create_bond p1 p2 s) = to_remove s"
  "bonds (create_bond p1 p2 s) =
     bonds s @ [\<lparr>joint_id = next_joint s, body_a = p1, body_b = p2,
                 rest_length = radius (objs s p1) * 2.5, stiffness = 150, damping = 1\<rparr>]"
  "static (objs (create_bond p1 p2 s) q) = static (objs s q)"
  by (simp_all add: create_bond_def append_connection_def Let_def static_def)

lemma conns_create_bond:
  "p1 \<noteq> p2 \<Longrightarrow> conns (create_bond p1 p2 s) q =
     (if q = p1 then conns s p1 @ [p2] else if q = p2 then conns s p2 @ [p1] else conns s q)"
  by (simp add: create_bond_def append_connection_def Let_def conns_def)

lemma degree_ok_create_bond:
  assumes "degree_ok s" "may_bond p1 p2 s" "p1 < next_id s" "p2 < next_id s"
  shows "degree_ok (create_bond p1 p2 s)"
proof -
  from assms(2) have ne: "p1 \<noteq> p2" by (simp add: may_bond_def)
  have m: "max_connections (objs (create_bond p1 p2 s) q) = max_connections (objs s q)" for q
    using create_bond_fields(5)[of p1 p2 s q] by (simp add: static_def)
  show ?thesis
    using assms by (auto simp: degree_ok_def conns_create_bond[OF ne] m may_bond_def)
qed

lemma hld_cases:
  obtains (bond) p1 p2 r1 r2 where
      "p1_candidates a s = p1 # r1" "p2_candidates b s = p2 # r2" "may_bond p1 p2 s"
      "handle_link_detection a b s = create_bond p1 p2 s"
  | (idle) "handle_link_detection a b s = s"
  by (cases "p1_candidates a s"; cases "p2_candidates b s"; cases "may_bond (hd (p1_candidates a s)) (hd (p2_candidates b s)) s")
     (auto simp: handle_link_detection_def)

lemma p1_candidates_mem:
  assumes "p1_candidates a s = p # r"
  shows "p \<in> set (particles s) \<and> sensor (objs s p) = Some a"
proof -
  from assms have "p \<in> set (p1_candidates a s)" by simp
  then show ?thesis by (simp add: p1_candidates_def)
qed

lemma p2_candidates_mem:
  assumes "p2_candidates b s = p # r"
  shows "p \<in> set (particles s) \<and> shape (objs s p) = b"
proof -
  from assms have "p \<in> set (p2_candidates b s)" by simp
  then show ?thesis by (simp add: p2_candidates_def)
qed

lemma degree_ok_hld:
  assumes "degree_ok s" "wf s"
  shows "degree_ok (handle_link_detection a b s)"
proof (cases rule: hld_cases[of a s b])
  case (bond p1 p2 r1 r2)
  then have "p1 \<in> set (particles s)" "p2 \<in> set (particles s)"
    using p1_candidates_mem p2_candidates_mem by blast+
  with assms(2) have "p1 < next_id s" "p2 < next_id s" by (simp_all add: wf_def)
  with bond assms(1) show ?thesis by (simp add: degree_ok_create_bond)
next
  case idle
  with assms show ?thesis by simp
qed

lemma degree_ok_brownian: "degree_ok s \<Longrightarrow> degree_ok (apply_brownian_motion g s)"
  by (simp add: degree_ok_def apply_brownian_motion_def fold_brownian_fields conns_def)

lemma fold_boundary_fields:
  "next_id (fold boundary_collision ps s) = next_id s \<and>
   particles (fold boundary_collision ps s) = particles s \<and>
   static (objs (fold boundary_collision ps s) q) = static (objs s q) \<and>
   connections (objs (fold boundary_collision ps s) q) = connections (objs s q)"
  by (induction ps arbitrary: s) (simp_all add: boundary_collision_fields)

lemma degree_ok_boundary: "degree_ok s \<Longrightarrow> degree_ok (handle_boundary_collision s)"
proof -
  have "max_connections (objs (fold boundary_collision ps s) q) = max_connections (objs s q)" for ps q
    using fold_boundary_fields[of ps s q] by (simp add: static_def)
  then show "degree_ok s \<Longrightarrow> ?thesis"
    by (simp add: degree_ok_def handle_boundary_collision_def fold_boundary_fields conns_def)
qed

lemma degree_ok_stats: "degree_ok s \<Longrightarrow> degree_ok (update_stats s)"
  by (simp add: degree_ok_def update_stats_def conns_def)

lemma flush_entry_objs: "flush_entry e s = Inr t \<Longrightarrow> objs t = objs s \<and> next_id t = next_id s"
  by (auto simp: flush_entry_def Let_def remove_particle_fields split: option.splits if_splits)

lemma flush_entries_objs: "flush_entries es s = Inr t \<Longrightarrow> objs t = objs s \<and> next_id t = next_id s"
  by (induction es arbitrary: s) (auto split: sum.splits dest: flush_entry_objs)

lemma flush_objs: "flush s = Inr t \<Longrightarrow> objs t = objs s \<and> next_id t = next_id s"
  by (auto simp: flush_def split: sum.splits dest: flush_entries_objs)

lemma degree_ok_flush: "degree_ok s \<Longrightarrow> flush s = Inr t \<Longrightarrow> degree_ok t"
  by (auto simp: degree_ok_def conns_def dest: flush_objs)

lemma wf_disintegration: "wf s \<Longrightarrow> handle_disintegration roll s = Inr t \<Longrightarrow> wf t"
  unfolding handle_disintegration_def using disintegrate_all_shrinks shrinks_wf by blast

lemma degree_ok_disintegration: "degree_ok s \<Longrightarrow> handle_disintegration roll s = Inr t \<Longrightarrow> degree_ok t"
  unfolding handle_disintegration_def using disintegrate_all_shrinks shrinks_degree by blast

lemma wf_run_action: "wf s \<Longrightarrow> wf (run_action a s)"
  by (cases a) (simp_all add: wf_move wf_hcs wf_hld)

lemma degree_ok_run_action: "wf s \<Longrightarrow> degree_ok s \<Longrightarrow> degree_ok (run_action a s)"
  by (cases a) (simp_all add: degree_ok_move degree_ok_hcs degree_ok_hld)

lemma wf_run_operation: "wf s \<Longrightarrow> run_operation op s = Inr t \<Longrightarrow> wf t"
  by (cases op) (auto simp: wf_run_action wf_brownian wf_boundary wf_stats
       dest: wf_disintegration wf_flush)

lemma degree_ok_run_operation: "wf s \<Longrightarrow> degree_ok s \<Longrightarrow> run_operation op s = Inr t \<Longrightarrow> degree_ok t"
  by (cases op) (auto simp: degree_ok_run_action degree_ok_brownian degree_ok_boundary degree_ok_stats
       dest: degree_ok_disintegration degree_ok_flush)

lemma reachable_wf_degree: "reachable s \<Longrightarrow> wf s \<and> degree_ok s"
proof (induction rule: reachable.induct)
  case (init rnd)
  show ?case by (simp add: wf_setup degree_ok_setup)
next
  case (step s op t)
  then show ?case using wf_run_operation degree_ok_run_operation by blast
qed

lemma setup_upto_Suc: "setup_upto rnd (Suc n) = add_substrate rnd n (setup_upto rnd n)"
  by (simp add: setup_upto_def)

lemma setup_upto_fields:
  "next_id (setup_upto rnd n) = Suc n \<and> particles (setup_upto rnd n) = [0..<Suc n] \<and>
   to_remove (setup_upto rnd n) = [] \<and> bonds (setup_upto rnd n) = [] \<and>
   ptype (objs (setup_upto rnd n) 0) = CATALYST \<and>
   (\<forall>i < n. ptype (objs (setup_upto rnd n) (Suc i)) = SUBSTRATE \<and>
      position (objs (setup_upto rnd n) (Suc i)) =
        (800 / 2 + snd (rnd i) * cos (fst (rnd i)), 800 / 2 + snd (rnd i) * sin (fst (rnd i))))"
proof (induction n)
  case 0
  have "next_id empty_simulation = 0" by (simp add: empty_simulation_def)
  then have "ptype (objs (add_particle (800 / 2) (800 / 2) CATALYST empty_simulation) 0) = CATALYST"
    using add_particle_fields(8)[where s = empty_simulation] by simp
  then show ?case by (simp add: setup_upto_def) (simp add: empty_simulation_def)
next
  case (Suc n)
  let ?s = "setup_upto rnd n"
  from Suc have n: "next_id ?s = Suc n" by simp
  have old: "objs (setup_upto rnd (Suc n)) q = objs ?s q" if "q < Suc n" for q
    using that n by (simp add: setup_upto_Suc add_substrate_def Let_def)
  have new: "ptype (objs (setup_upto rnd (Suc n)) (Suc n)) = SUBSTRATE \<and>
      position (objs (setup_upto rnd (Suc n)) (Suc n)) =
        (800 / 2 + snd (rnd n) * cos (fst (rnd n)), 800 / 2 + snd (rnd n) * sin (fst (rnd n)))"
    using add_particle_fields(8,9)[where s = ?s] n
    by (simp add: setup_upto_Suc add_substrate_def Let_def)
  have "\<forall>i < Suc n. ptype (objs (setup_upto rnd (Suc n)) (Suc i)) = SUBSTRATE \<and>
      position (objs (setup_upto rnd (Suc n)) (Suc i)) =
        (800 / 2 + snd (rnd i) * cos (fst (rnd i)), 800 / 2 + snd (rnd i) * sin (fst (rnd i)))"
  proof (intro allI impI)
    fix i assume "i < Suc n"
    then consider "i < n" | "i = n" by arith
    then show "ptype (objs (setup_upto rnd (Suc n)) (Suc i)) = SUBSTRATE \<and>
      position (objs (setup_upto rnd (Suc n)) (Suc i)) =
        (800 / 2 + snd (rnd i) * cos (fst (rnd i)), 800 / 2 + snd (rnd i) * sin (fst (rnd i)))"
    proof cases
      case 1
      with Suc old[of "Suc i"] show ?thesis by simp
    next
      case 2
      with new show ?thesis by simp
    qed
  qed
  moreover have "next_id (setup_upto rnd (Suc n)) = Suc (Suc n)"
    using n by (simp add: setup_upto_Suc add_substrate_def Let_def)
  moreover have "particles (setup_upto rnd (Suc n)) = [0..<Suc (Suc n)]"
    using Suc n by (simp add: setup_upto_Suc add_substrate_def Let_def)
  moreover have "to_remove (setup_upto rnd (Suc n)) = [] \<and> bonds (setup_upto rnd (Suc n)) = []"
    using Suc by (simp add: setup_upto_Suc add_substrate_def Let_def)
  moreover have "ptype (objs (setup_upto rnd (Suc n)) 0) = CATALYST"
    using Suc old[of 0] by simp
  ultimately show ?case by blast
qed

lemma setup_simulation_upto: "setup_simulation rnd = setup_upto rnd 300"
  by (simp add: setup_simulation_def setup_upto_def)

lemma setup_fields:
  "next_id (setup_simulation rnd) = 301"
  "particles (setup_simulation rnd) = [0..<301]"
  "to_remove (setup_simulation rnd) = []"
  "bonds (setup_simulation rnd) = []"
  "ptype (objs (setup_simulation rnd) 0) = CATALYST"
  using setup_upto_fields[of rnd 300] by (simp_all add: setup_simulation_upto)

lemma setup_substrate:
  "i < 300 \<Longrightarrow> ptype (objs (setup_simulation rnd) (Suc i)) = SUBSTRATE \<and>
      position (objs (setup_simulation rnd) (Suc i)) =
        (800 / 2 + snd (rnd i) * cos (fst (rnd i)), 800 / 2 + snd (rnd i) * sin (fst (rnd i)))"
  using setup_upto_fields[of rnd 300] by (simp add: setup_simulation_upto)

lemma candidates_create_bond [simp]:
  "p1_candidates a (create_bond p1 p2 s) = p1_candidates a s"
  "p2_candidates b (create_bond p1 p2 s) = p2_candidates b s"
proof -
  have "sensor (objs (create_bond p1 p2 s) q) = sensor (objs s q) \<and>
        shape (objs (create_bond p1 p2 s) q) = shape (objs s q)" for q
    using create_bond_fields(5)[of p1 p2 s q] by (simp add: static_def)
  then show "p1_candidates a (create_bond p1 p2 s) = p1_candidates a s"
    "p2_candidates b (create_bond p1 p2 s) = p2_candidates b s"
    by (simp_all add: p1_candidates_def p2_candidates_def)
qed

lemma hld_resolved:
  assumes "p1_candidates a s = p1 # r1" and "p2_candidates b s = p2 # r2"
  shows "handle_link_detection a b s = (if may_bond p1 p2 s then create_bond p1 p2 s else s)"
  using assms by (simp add: handle_link_detection_def)

lemma sensor_owner_is_link:
  assumes "wf s" and "p1_candidates a s = p1 # r1"
  shows "ptype (objs s p1) = LINK \<and> max_connections (objs s p1) = 2"
proof -
  from assms(2) have "p1 \<in> set (particles s)" "sensor (objs s p1) = Some a"
    using p1_candidates_mem by blast+
  with assms(1) have "built p1 (objs s p1)" by (simp add: wf_def)
  with \<open>sensor (objs s p1) = Some a\<close> show ?thesis by (auto simp: built_def split: if_splits)
qed

lemma link_shape_owner_is_link:
  assumes "wf s" and "p2_candidates b s = p2 # r2" and "collision_type s b = type_value LINK"
  shows "ptype (objs s p2) = LINK \<and> max_connections (objs s p2) = 2"
proof -
  from assms(2) have "p2 \<in> set (particles s)" "shape (objs s p2) = b"
    using p2_candidates_mem by blast+
  with assms(1) have b: "built p2 (objs s p2)" by (simp add: wf_def)
  with \<open>shape (objs s p2) = b\<close> have "b = Shape p2" by (simp add: built_def)
  with assms(3) have "ptype (objs s p2) = LINK" by (cases "ptype (objs s p2)") simp_all
  with b show ?thesis by (simp add: built_def)
qed

text \<open>what an operation may do to the two lists: extend the bonds, and either extend the
  pending mutations by removals of particles or clear them\<close>

lemma grows_refl: "grows s s"
  by (simp add: grows_def)

lemma grows_trans: "grows s t \<Longrightarrow> grows t u \<Longrightarrow> grows s u"
  by (fastforce simp: grows_def)

lemma grows_same: "bonds t = bonds s \<Longrightarrow> to_remove t = to_remove s \<Longrightarrow> grows s t"
  by (simp add: grows_def)

lemma grows_hcs: "grows s (handle_catalyst_substrate roll k sh s)"
  by (cases "roll < 0.15 \<and> nearby_substrates sh s \<noteq> []")
     (simp_all add: hcs_idle hcs_fires Let_def grows_def)

lemma grows_hld: "grows s (handle_link_detection a b s)"
  by (cases rule: hld_cases[of a s b]) (simp_all add: grows_def)

lemma fold_brownian_lists:
  "bonds (fold (brownian g) ps s) = bonds s \<and> to_remove (fold (brownian g) ps s) = to_remove s"
  by (induction ps arbitrary: s) (simp_all add: brownian_def apply_force_at_local_point_def Let_def)

lemma fold_boundary_lists:
  "bonds (fold boundary_collision ps s) = bonds s \<and> to_remove (fold boundary_collision ps s) = to_remove s"
  by (induction ps arbitrary: s) (simp_all add: boundary_collision_def Let_def)

lemma grows_run_action: "grows s (run_action a s)"
  by (cases a) (simp_all add: grows_hcs grows_hld, simp add: grows_def move_bodies_def)

lemma grows_disintegrate:
  assumes "disintegrate roll p s = Inr t"
  shows "grows s t"
  using assms
proof (cases rule: disintegrate_cases)
  case idle
  then show ?thesis by (simp add: grows_refl)
next
  case aged
  then show ?thesis by (simp add: grows_def)
next
  case (fired h)
  then show ?thesis by (simp add: grows_def Let_def)
qed

lemma grows_disintegrate_all: "disintegrate_all roll ps s = Inr t \<Longrightarrow> grows s t"
proof (induction ps arbitrary: s)
  case Nil
  then show ?case by (simp add: grows_refl)
next
  case (Cons p ps)
  then obtain s1 where "disintegrate roll p s = Inr s1" "disintegrate_all roll ps s1 = Inr t"
    by (auto split: sum.splits)
  then show ?case using Cons.IH grows_disintegrate grows_trans by blast
qed

text \<open>an entry without a bond leaves the bonds alone\<close>

lemma flush_entry_no_bond: "snd e = None \<Longrightarrow> flush_entry e s = Inr t \<Longrightarrow> bonds t = bonds s"
  by (auto simp: flush_entry_def Let_def remove_particle_fields split: option.splits)

lemma flush_entries_no_bond:
  "\<forall>e \<in> set es. snd e = None \<Longrightarrow> flush_entries es s = Inr t \<Longrightarrow> bonds t = bonds s"
proof (induction es arbitrary: s)
  case Nil
  then show ?case by simp
next
  case (Cons e es)
  then obtain s1 where s1: "flush_entry e s = Inr s1" "flush_entries es s1 = Inr t"
    by (auto split: sum.splits)
  with Cons.prems(1) have "bonds s1 = bonds s" using flush_entry_no_bond[of e s s1] by simp
  moreover from Cons.IH Cons.prems(1) s1(2) have "bonds t = bonds s1" by simp
  ultimately show ?case by simp
qed

lemma flush_clears: "flush s = Inr t \<Longrightarrow> to_remove t = []"
  by (auto simp: flush_def split: sum.splits)

lemma flush_no_bond: "no_bond_pending s \<Longrightarrow> flush s = Inr t \<Longrightarrow> bonds t = bonds s"
  by (auto simp: flush_def no_bond_pending_def split: sum.splits dest: flush_entries_no_bond)

lemma grows_no_bond_pending: "grows s t \<Longrightarrow> no_bond_pending s \<Longrightarrow> no_bond_pending t"
  by (fastforce simp: grows_def no_bond_pending_def)

lemma run_operation_bonds:
  assumes "no_bond_pending s" and "run_operation op s = Inr t"
  shows "no_bond_pending t \<and> (\<exists>js. bonds t = bonds s @ js)"
proof (cases op)
  case (Physics a)
  with assms(2) have "grows s t" using grows_run_action by auto
  with assms(1) show ?thesis using grows_no_bond_pending by (auto simp: grows_def)
next
  case (Brownian g)
  with assms show ?thesis
    by (auto simp: apply_brownian_motion_def fold_brownian_lists no_bond_pending_def)
next
  case (Disintegration roll)
  with assms(2) have "grows s t" using grows_disintegrate_all by (auto simp: handle_disintegration_def)
  with assms(1) show ?thesis using grows_no_bond_pending by (auto simp: grows_def)
next
  case Boundary
  with assms show ?thesis
    by (auto simp: handle_boundary_collision_def fold_boundary_lists no_bond_pending_def)
next
  case Flush
  with assms show ?thesis using flush_clears[of s t] flush_no_bond[of s t]
    by (simp add: no_bond_pending_def)
next
  case Stats
  with assms show ?thesis by (auto simp: update_stats_def no_bond_pending_def)
qed

lemma reachable_no_bond_pending: "reachable s \<Longrightarrow> no_bond_pending s"
proof (induction rule: reachable.induct)
  case (init rnd)
  show ?case by (simp add: no_bond_pending_def setup_fields)
next
  case (step s op t)
  then show ?case using run_operation_bonds by blast
qed

lemma run_operations_bonds:
  "no_bond_pending s \<Longrightarrow> run_operations ops s = Inr t \<Longrightarrow> \<exists>js. bonds t = bonds s @ js"
proof (induction ops arbitrary: s)
  case Nil
  then show ?case by simp
next
  case (Cons op ops)
  then obtain s1 where s1: "run_operation op s = Inr s1" "run_operations ops s1 = Inr t"
    by (auto split: sum.splits)
  from run_operation_bonds[OF Cons.prems(1) s1(1)] obtain js where
    "no_bond_pending s1" "bonds s1 = bonds s @ js" by blast
  moreover from Cons.IH[OF \<open>no_bond_pending s1\<close> s1(2)] obtain ks where "bonds t = bonds s1 @ ks" by blast
  ultimately show ?case by simp
qed

lemma in_set_remove1D: "x \<in> set (remove1 y xs) \<Longrightarrow> x \<in> set xs"
  by (metis notin_set_remove1)

lemma absent_iff: "absent sh s \<longleftrightarrow> (\<forall>p \<in> set (particles s). shape (objs s p) \<noteq> sh)"
  by (auto simp: absent_def find_None_iff)

lemma remove_particle_absent:
  "absent sh s \<Longrightarrow> remove_particle sh s = s\<lparr>stdout := stdout s @ [not_found_warning]\<rparr>"
  by (simp add: absent_def remove_particle_def not_found_warning_def)

lemma wf_shape: "wf s \<Longrightarrow> p \<in> set (particles s) \<Longrightarrow> shape (objs s p) = Shape p"
  by (simp add: wf_def built_def)

lemma absent_after_remove:
  assumes "wf s"
  shows "absent sh (remove_particle sh s)"
proof (cases "find (\<lambda>p. shape (objs s p) = sh) (particles s)")
  case None
  then have "absent sh s" by (simp add: absent_def)
  then show ?thesis by (simp add: remove_particle_absent) (simp add: absent_def)
next
  case (Some p)
  then have p: "p \<in> set (particles s)" "shape (objs s p) = sh"
    by (auto simp: find_Some_iff)
  with assms have sh: "sh = Shape p" using wf_shape by auto
  have "shape (objs s q) \<noteq> sh" if "q \<in> set (remove1 p (particles s))" for q
  proof -
    from assms have "distinct (particles s)" by (simp add: wf_def)
    with that have "q \<noteq> p" "q \<in> set (particles s)" by auto
    with assms sh show ?thesis using wf_shape[of s q] by simp
  qed
  with Some show ?thesis
    by (simp add: absent_iff remove_particle_fields particles_remove_particle)
qed

lemma flush_entry_subset:
  "flush_entry e s = Inr t \<Longrightarrow> objs t = objs s \<and> set (particles t) \<subseteq> set (particles s)"
  by (cases e) (auto simp: flush_entry_def Let_def remove_particle_fields particles_remove_particle
       split: option.splits if_splits dest: in_set_remove1D)

lemma flush_entries_subset:
  "flush_entries es s = Inr t \<Longrightarrow> objs t = objs s \<and> set (particles t) \<subseteq> set (particles s)"
proof (induction es arbitrary: s)
  case Nil
  then show ?case by simp
next
  case (Cons e es)
  then obtain s1 where s1: "flush_entry e s = Inr s1" "flush_entries es s1 = Inr t"
    by (auto split: sum.splits)
  from flush_entry_subset[OF s1(1)] Cons.IH[OF s1(2)] show ?case by auto
qed

lemma absent_flush_entries: "absent sh s \<Longrightarrow> flush_entries es s = Inr t \<Longrightarrow> absent sh t"
  using flush_entries_subset[of es s t] by (auto simp: absent_iff)

lemma registry_eq_remove_particle:
  "registry_eq s s' \<Longrightarrow> registry_eq (remove_particle sh s) (remove_particle sh s')"
  by (simp add: registry_eq_def remove_particle_def split: option.splits)

lemma registry_eq_flush_entry:
  assumes "registry_eq s s'"
  shows "same_registry (flush_entry e s) (flush_entry e s')"
proof (cases e)
  case (Pair a b)
  define s1 where "s1 = (case a of Some sh \<Rightarrow> remove_particle sh s | None \<Rightarrow> s)"
  define s2 where "s2 = (case a of Some sh \<Rightarrow> remove_particle sh s' | None \<Rightarrow> s')"
  have eq: "registry_eq s1 s2"
    unfolding s1_def s2_def using assms registry_eq_remove_particle by (cases a) simp_all
  show ?thesis
  proof (cases b)
    case None
    with Pair eq show ?thesis
      by (simp add: flush_entry_def same_registry_def s1_def[symmetric] s2_def[symmetric])
  next
    case (Some bond)
    from eq have "registry_eq
         (s1\<lparr>space_constraints := space_constraints s1 - {bond}, bonds := remove1 bond (bonds s1)\<rparr>)
         (s2\<lparr>space_constraints := space_constraints s2 - {bond}, bonds := remove1 bond (bonds s2)\<rparr>)"
      by (simp add: registry_eq_def)
    moreover from eq have "bonds s2 = bonds s1" by (simp add: registry_eq_def)
    ultimately show ?thesis using Pair Some
      by (simp add: flush_entry_def same_registry_def s1_def[symmetric] s2_def[symmetric])
  qed
qed

lemma registry_eq_flush_entries:
  "registry_eq s s' \<Longrightarrow> same_registry (flush_entries es s) (flush_entries es s')"
proof (induction es arbitrary: s s')
  case Nil
  then show ?case by (simp add: same_registry_def)
next
  case (Cons e es)
  from registry_eq_flush_entry[OF Cons.prems, of e] show ?case
  proof (cases "flush_entry e s"; cases "flush_entry e s'")
    fix t1 t2 assume r: "flush_entry e s = Inr t1" "flush_entry e s' = Inr t2"
    with registry_eq_flush_entry[OF Cons.prems, of e] have "registry_eq t1 t2"
      by (simp add: same_registry_def)
    with Cons.IH r show ?thesis by simp
  qed (simp_all add: same_registry_def)
qed

lemma flush_entries_append:
  "flush_entries (xs @ ys) s =
     (case flush_entries xs s of Inl err \<Rightarrow> Inl err | Inr u \<Rightarrow> flush_entries ys u)"
  by (induction xs arbitrary: s) (simp_all split: sum.splits)

lemma same_registry_clear:
  assumes "same_registry r1 r2"
  shows "same_registry (case r1 of Inl err \<Rightarrow> Inl err | Inr s1 \<Rightarrow> Inr (s1\<lparr>to_remove := []\<rparr>))
                 (case r2 of Inl err \<Rightarrow> Inl err | Inr s1 \<Rightarrow> Inr (s1\<lparr>to_remove := []\<rparr>))"
  using assms by (cases r1; cases r2) (simp_all add: same_registry_def registry_eq_def)

lemma remove_particle_to_remove:
  "remove_particle sh (s\<lparr>to_remove := r\<rparr>) = (remove_particle sh s)\<lparr>to_remove := r\<rparr>"
  by (simp add: remove_particle_def split: option.splits)

lemma flush_entry_to_remove:
  "flush_entry e (s\<lparr>to_remove := r\<rparr>) =
     (case flush_entry e s of Inl err \<Rightarrow> Inl err | Inr t \<Rightarrow> Inr (t\<lparr>to_remove := r\<rparr>))"
  by (cases e) (simp add: flush_entry_def Let_def remove_particle_to_remove remove_particle_fields
       split: option.splits)

lemma flush_entries_to_remove:
  "flush_entries es (s\<lparr>to_remove := r\<rparr>) =
     (case flush_entries es s of Inl err \<Rightarrow> Inl err | Inr t \<Rightarrow> Inr (t\<lparr>to_remove := r\<rparr>))"
  by (induction es arbitrary: s) (simp_all add: flush_entry_to_remove split: sum.splits)

lemma flush_queue:
  "flush (s\<lparr>to_remove := es\<rparr>) =
     (case flush_entries es s of Inl err \<Rightarrow> Inl err | Inr t \<Rightarrow> Inr (t\<lparr>to_remove := []\<rparr>))"
  by (simp add: flush_def flush_entries_to_remove split: sum.splits)

lemma same_registry_refl: "same_registry r r"
  by (cases r) (simp_all add: same_registry_def registry_eq_def)

lemma wf_find_shape:
  assumes "wf s"
  shows "find (\<lambda>p. shape (objs s p) = Shape x) (particles s) = (if x \<in> set (particles s) then Some x else None)"
proof (cases "x \<in> set (particles s)")
  case False
  have "shape (objs s p) \<noteq> Shape x" if "p \<in> set (particles s)" for p
    using that False wf_shape[OF assms that] by auto
  with False show ?thesis by (simp add: find_None_iff)
next
  case True
  have "\<exists>i<length (particles s). shape (objs s (particles s ! i)) = Shape x \<and> x = particles s ! i \<and>
          (\<forall>j<i. shape (objs s (particles s ! j)) \<noteq> Shape x)"
  proof -
    from True obtain i where i: "i < length (particles s)" "particles s ! i = x"
      by (auto simp: in_set_conv_nth)
    from assms have d: "distinct (particles s)" by (simp add: wf_def)
    have "shape (objs s (particles s ! j)) \<noteq> Shape x" if "j < i" for j
    proof -
      from that i have "particles s ! j \<in> set (particles s)" by simp
      then have "shape (objs s (particles s ! j)) = Shape (particles s ! j)" using wf_shape[OF assms] by blast
      moreover from that i d have "particles s ! j \<noteq> x" by (auto simp: nth_eq_iff_index_eq)
      ultimately show ?thesis by simp
    qed
    moreover from True have "shape (objs s x) = Shape x" using wf_shape[OF assms] by blast
    ultimately show ?thesis using i by auto
  qed
  with True show ?thesis by (simp add: find_Some_iff)
qed

lemma wf_find_sensor:
  assumes "wf s"
  shows "find (\<lambda>p. shape (objs s p) = Sensor x) (particles s) = None"
proof -
  have "shape (objs s p) \<noteq> Sensor x" if "p \<in> set (particles s)" for p
    using wf_shape[OF assms that] by simp
  then show ?thesis by (simp add: find_None_iff)
qed

lemma distinct_remove1_filter: "distinct xs \<Longrightarrow> remove1 x xs = filter (\<lambda>q. q \<noteq> x) xs"
  by (simp add: distinct_remove1_removeAll removeAll_filter_not_eq) (metis (mono_tags, lifting) filter_cong)

lemma wf_particles_remove_particle:
  assumes "wf s"
  shows "particles (remove_particle sh s) = filter (\<lambda>q. Shape q \<noteq> sh) (particles s)"
proof (cases sh)
  case (Shape x)
  from assms have d: "distinct (particles s)" by (simp add: wf_def)
  show ?thesis
  proof (cases "x \<in> set (particles s)")
    case True
    with Shape assms d show ?thesis
      by (simp add: particles_remove_particle wf_find_shape distinct_remove1_filter)
  next
    case False
    then have "filter (\<lambda>q. q \<noteq> x) (particles s) = particles s" by (auto simp: filter_id_conv)
    with False Shape assms show ?thesis
      by (simp add: particles_remove_particle wf_find_shape)
  qed
next
  case (Sensor x)
  with assms show ?thesis by (simp add: particles_remove_particle wf_find_sensor)
qed

lemma wf_flush_entry_particles:
  assumes "wf s" and "snd e = None"
  shows "\<exists>t. flush_entry e s = Inr t \<and> objs t = objs s \<and> next_id t = next_id s \<and> bonds t = bonds s \<and>
           particles t = filter (\<lambda>q. (Some (Shape q), None) \<noteq> e) (particles s)"
proof (cases e)
  case (Pair a b)
  with assms(2) have b: "b = None" by simp
  show ?thesis
  proof (cases a)
    case None
    with Pair b show ?thesis by (simp add: flush_entry_def)
  next
    case (Some sh)
    with Pair b assms(1) show ?thesis
      by (simp add: flush_entry_def remove_particle_fields wf_particles_remove_particle)
  qed
qed

lemma wf_flush_entries_particles:
  assumes "wf s" and "\<forall>e \<in> set es. snd e = None"
  shows "\<exists>t. flush_entries es s = Inr t \<and> objs t = objs s \<and> next_id t = next_id s \<and> bonds t = bonds s \<and>
           particles t = filter (\<lambda>q. (Some (Shape q), None) \<notin> set es) (particles s)"
  using assms
proof (induction es arbitrary: s)
  case Nil
  then show ?case by simp
next
  case (Cons e es)
  from Cons.prems have "snd e = None" by simp
  from wf_flush_entry_particles[OF Cons.prems(1) this] obtain s1 where
    s1: "flush_entry e s = Inr s1" "objs s1 = objs s" "next_id s1 = next_id s" "bonds s1 = bonds s"
      "particles s1 = filter (\<lambda>q. (Some (Shape q), None) \<noteq> e) (particles s)"
    by blast
  from Cons.prems(1) s1(1) have "wf s1" by (rule wf_flush_entry)
  from Cons.IH[OF this] Cons.prems(2) obtain t where
    t: "flush_entries es s1 = Inr t" "objs t = objs s1" "next_id t = next_id s1" "bonds t = bonds s1"
      "particles t = filter (\<lambda>q. (Some (Shape q), None) \<notin> set es) (particles s1)"
    by auto
  have "particles t = filter (\<lambda>q. (Some (Shape q), None) \<notin> set (e # es)) (particles s)"
    unfolding t(5) s1(5) by (auto intro: filter_cong)
  with s1 t show ?case by simp
qed

lemma wf_flush_particles:
  assumes "wf s" and "no_bond_pending s"
  shows "\<exists>t. flush s = Inr t \<and> objs t = objs s \<and> next_id t = next_id s \<and> bonds t = bonds s \<and>
           to_remove t = [] \<and> particles t = filter (\<lambda>q. \<not> pending s q) (particles s)"
proof -
  from assms(2) have "\<forall>e \<in> set (to_remove s). snd e = None" by (simp add: no_bond_pending_def)
  from wf_flush_entries_particles[OF assms(1) this] obtain t where
    "flush_entries (to_remove s) s = Inr t" "objs t = objs s" "next_id t = next_id s" "bonds t = bonds s"
    "particles t = filter (\<lambda>q. (Some (Shape q), None) \<notin> set (to_remove s)) (particles s)"
    by blast
  then show ?thesis by (simp add: flush_def pending_def)
qed

lemma distance_same [simp]: "distance v v = 0"
  by (simp add: distance_def)

lemma crowded_fields:
  "wf crowded" "next_id crowded = 301" "particles crowded = [0..<301]" "to_remove crowded = []"
  "bonds crowded = []" "ptype (objs crowded 0) = CATALYST"
  by (simp_all add: crowded_def wf_setup setup_fields)

lemma crowded_substrate:
  assumes "0 < p" "p \<le> 300"
  shows "ptype (objs crowded p) = SUBSTRATE" "pos_of crowded p = (400, 400)" "shape (objs crowded p) = Shape p"
proof -
  from assms obtain i where i: "p = Suc i" "i < 300" by (cases p) auto
  from setup_substrate[OF i(2), of rnd_center] i(1)
  show "ptype (objs crowded p) = SUBSTRATE" "pos_of crowded p = (400, 400)"
    by (simp_all add: crowded_def rnd_center_def pos_of_def)
  from assms have "p \<in> set (particles crowded)" by (simp add: crowded_fields)
  then show "shape (objs crowded p) = Shape p" using wf_shape[OF crowded_fields(1)] by blast
qed

lemma upt_301: "[0..<301] = 0 # 1 # 2 # 3 # [4..<301]"
proof -
  have "[0..<4 + 297] = [0..<4] @ [4..<4 + 297]" by (rule upt_add_eq_append) simp
  moreover have "(4::nat) + 297 = 301" by simp
  moreover have "[0..<4] = [0, 1, 2, 3]" by (simp add: upt_conv_Cons)
  ultimately show ?thesis by (simp only: append_Cons append_Nil)
qed

lemma nearby_crowded: "\<exists>rest. nearby_substrates (Shape 1) crowded = 2 # rest"
  by (simp add: nearby_substrates_def crowded_fields upt_301 crowded_substrate del: upt_Suc One_nat_def)

lemma pick_first [simp]: "random_choice 0 (x # xs) = x"
  by (simp add: random_choice_def)

lemma crowded1_eq:
  "crowded1 = (snd (create_link (400, 400) crowded))\<lparr>to_remove := [(Some (Shape 1), None), (Some (Shape 2), None)]\<rparr>"
proof -
  from nearby_crowded obtain rest where n: "nearby_substrates (Shape 1) crowded = 2 # rest" ..
  have "objs (snd (create_link pos crowded)) 2 = objs crowded 2" for pos
    by (simp add: crowded_fields)
  then show ?thesis
    unfolding crowded1_def
    by (simp add: hcs_fires n Let_def crowded_substrate crowded_fields midpoint_of_def del: One_nat_def)
qed

lemma crowded1_fields:
  "wf crowded1" "next_id crowded1 = 302" "particles crowded1 = [0..<301] @ [301]"
  "to_remove crowded1 = [(Some (Shape 1), None), (Some (Shape 2), None)]"
  "ptype (objs crowded1 0) = CATALYST" "ptype (objs crowded1 301) = LINK"
  using wf_create_link[OF crowded_fields(1)] create_link_fields(9)[of "(400, 400)" crowded]
  by (simp_all add: crowded1_eq crowded_fields)

lemma crowded1_substrate:
  assumes "0 < p" "p \<le> 300"
  shows "ptype (objs crowded1 p) = SUBSTRATE" "pos_of crowded1 p = (400, 400)" "shape (objs crowded1 p) = Shape p"
  using assms crowded_substrate[OF assms] by (simp_all add: crowded1_eq crowded_fields pos_of_def)

lemma nearby_crowded1: "\<exists>rest. nearby_substrates (Shape 3) crowded1 = 1 # rest"
  by (simp add: nearby_substrates_def crowded1_fields upt_301 crowded1_substrate del: upt_Suc One_nat_def)

lemma crowded2_eq:
  "crowded2 = (snd (create_link (400, 400) crowded1))
     \<lparr>to_remove := [(Some (Shape 1), None), (Some (Shape 2), None), (Some (Shape 3), None), (Some (Shape 1), None)]\<rparr>"
proof -
  from nearby_crowded1 obtain rest where n: "nearby_substrates (Shape 3) crowded1 = 1 # rest" ..
  have "objs (snd (create_link pos crowded1)) 1 = objs crowded1 1" for pos
    by (simp add: crowded1_fields)
  then show ?thesis
    unfolding crowded2_def
    by (simp add: hcs_fires n Let_def crowded1_substrate crowded1_fields midpoint_of_def del: One_nat_def)
qed

lemma length_filter_remove1:
  "p \<in> set xs \<Longrightarrow> length (filter P (remove1 p xs)) + (if P p then 1 else 0) = length (filter P xs)"
  by (induction xs) auto

lemma filter_two_remove1:
  "distinct xs \<Longrightarrow> filter (\<lambda>x. x \<noteq> p \<and> x \<noteq> q) xs = remove1 q (remove1 p xs)"
proof -
  assume d: "distinct xs"
  then have "remove1 q (remove1 p xs) = filter (\<lambda>x. x \<noteq> q) (filter (\<lambda>x. x \<noteq> p) xs)"
    by (simp add: distinct_remove1_filter)
  also have "\<dots> = filter (\<lambda>x. x \<noteq> p \<and> x \<noteq> q) xs" by (auto intro: filter_cong)
  finally show ?thesis by simp
qed

lemma hcs_fields:
  assumes "roll < 0.15" and "nearby_substrates sh s \<noteq> []" and "wf s"
    and "q = random_choice k (nearby_substrates sh s)"
  shows "q \<in> set (particles s)" "ptype (objs s q) = SUBSTRATE" "shape (objs s q) \<noteq> sh"
    "handle_catalyst_substrate roll k sh s =
       (snd (create_link (midpoint_of (pos_of s (shape_body sh)) (pos_of s q)) s))
         \<lparr>to_remove := to_remove s @ [(Some sh, None), (Some (Shape q), None)]\<rparr>"
proof -
  from assms(2) have "k mod length (nearby_substrates sh s) < length (nearby_substrates sh s)" by simp
  then have "q \<in> set (nearby_substrates sh s)"
    unfolding assms(4) random_choice_def by (rule nth_mem)
  then show q: "q \<in> set (particles s)" "ptype (objs s q) = SUBSTRATE" "shape (objs s q) \<noteq> sh"
    by (simp_all add: nearby_substrates_def)
  from q(1) assms(3) have "q < next_id s" "shape (objs s q) = Shape q"
    by (simp_all add: wf_def built_def)
  then have "shape (objs (snd (create_link pos s)) q) = Shape q" for pos by simp
  with assms(1,2,4) show "handle_catalyst_substrate roll k sh s =
       (snd (create_link (midpoint_of (pos_of s (shape_body sh)) (pos_of s q)) s))
         \<lparr>to_remove := to_remove s @ [(Some sh, None), (Some (Shape q), None)]\<rparr>"
    by (simp add: hcs_fires Let_def)
qed

lemma crowded2_fields:
  "wf crowded2" "next_id crowded2 = 303" "particles crowded2 = [0..<301] @ [301, 302]"
  "to_remove crowded2 = [(Some (Shape 1), None), (Some (Shape 2), None), (Some (Shape 3), None), (Some (Shape 1), None)]"
  "ptype (objs crowded2 0) = CATALYST" "ptype (objs crowded2 301) = LINK" "ptype (objs crowded2 302) = LINK"
  using wf_create_link[OF crowded1_fields(1)] create_link_fields(9)[of "(400, 400)" crowded1]
  by (simp_all add: crowded2_eq crowded1_fields)

lemma crowded2_substrate:
  assumes "0 < p" "p \<le> 300"
  shows "ptype (objs crowded2 p) = SUBSTRATE"
  using assms crowded1_substrate[OF assms] by (simp add: crowded2_eq crowded1_fields)

lemma filter_all: "(\<And>x. x \<in> set xs \<Longrightarrow> P x) \<Longrightarrow> filter P xs = xs"
  by (simp add: filter_id_conv)

lemma filter_none: "(\<And>x. x \<in> set xs \<Longrightarrow> \<not> P x) \<Longrightarrow> filter P xs = []"
  by (simp add: filter_empty_conv)

lemma upt_3_301: "[3..<301] = 3 # [4..<301]"
  using upt_conv_Cons[of 3 301] by simp

lemma flush_crowded1:
  "\<exists>t. flush crowded1 = Inr t \<and> objs t = objs crowded1 \<and> particles t = 0 # [3..<301] @ [301]"
proof -
  have nb: "no_bond_pending crowded1" by (simp add: no_bond_pending_def crowded1_fields)
  have "filter (\<lambda>x. \<not> pending crowded1 x) [4..<301] = [4..<301]"
    by (rule filter_all) (auto simp: pending_def crowded1_fields)
  then have "filter (\<lambda>q. \<not> pending crowded1 q) (particles crowded1) = 0 # [3..<301] @ [301]"
    by (simp add: crowded1_fields upt_301 upt_3_301 del: upt_Suc One_nat_def)
       (simp add: pending_def crowded1_fields del: upt_Suc)
  with wf_flush_particles[OF crowded1_fields(1) nb] show ?thesis by auto
qed

lemma flush_crowded2:
  "\<exists>t. flush crowded2 = Inr t \<and> objs t = objs crowded2 \<and> particles t = 0 # [4..<301] @ [301, 302]"
proof -
  have nb: "no_bond_pending crowded2" by (simp add: no_bond_pending_def crowded2_fields)
  have "filter (\<lambda>x. \<not> pending crowded2 x) [4..<301] = [4..<301]"
    by (rule filter_all) (auto simp: pending_def crowded2_fields)
  then have "filter (\<lambda>q. \<not> pending crowded2 q) (particles crowded2) = 0 # [4..<301] @ [301, 302]"
    by (simp add: crowded2_fields upt_301 del: upt_Suc One_nat_def)
       (simp add: pending_def crowded2_fields del: upt_Suc)
  with wf_flush_particles[OF crowded2_fields(1) nb] show ?thesis by auto
qed

lemma substrates_crowded1:
  "length (filter (\<lambda>p. ptype (objs crowded1 p) = SUBSTRATE) (0 # [3..<301] @ [301])) = 298"
proof -
  have "filter (\<lambda>p. ptype (objs crowded1 p) = SUBSTRATE) [3..<301] = [3..<301]"
    by (rule filter_all) (simp add: crowded1_substrate)
  then show ?thesis by (simp add: crowded1_fields del: upt_Suc)
qed

lemma substrates_crowded2:
  "length (filter (\<lambda>p. ptype (objs crowded2 p) = SUBSTRATE) (0 # [4..<301] @ [301, 302])) = 297"
proof -
  have "filter (\<lambda>p. ptype (objs crowded2 p) = SUBSTRATE) [4..<301] = [4..<301]"
    by (rule filter_all) (simp add: crowded2_substrate)
  then show ?thesis by (simp add: crowded2_fields del: upt_Suc)
qed

lemma substrates_crowded1_before:
  "length (filter (\<lambda>p. ptype (objs crowded1 p) = SUBSTRATE) ([0..<301] @ [301])) = 300"
proof -
  have "[0..<301] = 0 # [1..<301]" using upt_conv_Cons[of 0 301] by (simp add: One_nat_def)
  moreover have "filter (\<lambda>p. ptype (objs crowded1 p) = SUBSTRATE) [1..<301] = [1..<301]"
    by (rule filter_all) (simp add: crowded1_substrate)
  ultimately show ?thesis by (simp add: crowded1_fields del: upt_Suc)
qed

lemma disconnect_closed_form:
  assumes "connections (h p) = cs" and "p \<notin> set cs" and "distinct cs"
    and "\<forall>c \<in> set (drop i cs). p \<in> set (connections (h c))"
  shows "disconnect p i h = Inr (unlink p (set (drop i cs)) h)"
  using assms
proof (induction "length cs - i" arbitrary: i h)
  case 0
  then have "drop i cs = []" by simp
  moreover from 0 have "\<not> i < length (connections (h p))" by simp
  ultimately show ?case by (subst disconnect.simps) (simp add: unlink_def)
next
  case (Suc n)
  then have i: "i < length cs" by simp
  let ?c = "cs ! i"
  let ?h1 = "h(?c := (h ?c)\<lparr>connections := remove1 p (connections (h ?c))\<rparr>)"
  from i have dr: "drop i cs = ?c # drop (Suc i) cs" by (simp add: Cons_nth_drop_Suc)
  from i Suc.prems(2) have cp: "?c \<noteq> p" by (metis nth_mem)
  from Suc.prems(4) dr have mem: "p \<in> set (connections (h ?c))" by simp
  from Suc.prems(3) dr have notin: "?c \<notin> set (drop (Suc i) cs)"
    by (metis distinct.simps(2) distinct_drop)
  have step: "disconnect p i h = disconnect p (Suc i) ?h1"
    using i mem Suc.prems(1) by (subst disconnect.simps) (simp add: Let_def)
  have "disconnect p (Suc i) ?h1 = Inr (unlink p (set (drop (Suc i) cs)) ?h1)"
  proof (rule Suc.hyps(1))
    show "n = length cs - Suc i" using Suc.hyps(2) by simp
    show "connections (?h1 p) = cs" using cp Suc.prems(1) by simp
    show "p \<notin> set cs" by fact
    show "distinct cs" by fact
    show "\<forall>c \<in> set (drop (Suc i) cs). p \<in> set (connections (?h1 c))"
      using Suc.prems(4) dr notin by auto
  qed
  moreover have "unlink p (set (drop (Suc i) cs)) ?h1 = unlink p (set (drop i cs)) h"
    using notin by (auto simp: unlink_def dr fun_eq_iff)
  ultimately show ?case using step by simp
qed

lemma disintegrate_fires:
  assumes "ptype (objs s p) = LINK" and "age (objs s p) + 1 > 1000" and "roll p < 0.01"
    and "p \<notin> set (conns s p)" and "distinct (conns s p)"
    and "\<forall>c \<in> set (conns s p). p \<in> set (conns s c)" and "p < next_id s"
  shows "disintegrate roll p s =
     Inr (let h = unlink p (set (conns s p)) ((objs s)(p := (objs s p)\<lparr>age := age (objs s p) + 1\<rparr>));
              pos = position (objs s p);
              s3 = snd (new_Particle (fst pos + 10) (snd pos) SUBSTRATE (s\<lparr>objs := h\<rparr>));
              s4 = snd (new_Particle (fst pos - 10) (snd pos) SUBSTRATE s3)
          in s4\<lparr>to_remove := to_remove s @ [(Some (shape (objs s p)), None)]\<rparr>)"
proof -
  let ?g = "(objs s)(p := (objs s p)\<lparr>age := age (objs s p) + 1\<rparr>)"
  let ?h = "unlink p (set (conns s p)) ?g"
  have c0: "connections (?g x) = conns s x" for x by (simp add: conns_def)
  have "disconnect p 0 ?g = Inr (unlink p (set (drop 0 (conns s p))) ?g)"
  proof (rule disconnect_closed_form)
    show "connections (?g p) = conns s p" by (rule c0)
    show "p \<notin> set (conns s p)" by fact
    show "distinct (conns s p)" by fact
    show "\<forall>c \<in> set (drop 0 (conns s p)). p \<in> set (connections (?g c))"
      using assms(6) c0 by simp
  qed
  then have d: "disconnect p 0 ?g = Inr ?h" by simp
  have up: "?h p = ?g p"
    using assms(4) by (simp add: unlink_def)
  have pos: "position (?h p) = position (objs s p)" unfolding up by simp
  have sh: "shape (objs (snd (new_Particle x2 y2 SUBSTRATE (snd (new_Particle x1 y1 SUBSTRATE (s\<lparr>objs := ?h\<rparr>))))) p) =
        shape (objs s p)" for x1 y1 x2 y2
    using assms(7) up by simp
  show ?thesis
    using assms(1,2,3) by (simp add: disintegrate_def Let_def d pos sh)
qed

lemma brownian_closed_form:
  "brownian gauss p s = s\<lparr>applied_forces := applied_forces s @ submitted_forces gauss s p\<rparr>"
  by (simp add: brownian_def submitted_forces_def confinement_force_def apply_force_at_local_point_def
        Let_def pos_of_def)

lemma submitted_forces_frame [simp]:
  "submitted_forces gauss (s\<lparr>applied_forces := x\<rparr>) = submitted_forces gauss s"
  by (rule ext) (simp add: submitted_forces_def pos_of_def)

lemma fold_brownian_closed_form:
  "fold (brownian gauss) ps s =
     s\<lparr>applied_forces := applied_forces s @ concat (map (submitted_forces gauss s) ps)\<rparr>"
proof (induction ps arbitrary: s)
  case Nil
  show ?case by simp
next
  case (Cons p ps)
  let ?s1 = "brownian gauss p s"
  have "fold (brownian gauss) (p # ps) s = fold (brownian gauss) ps ?s1" by simp
  also have "\<dots> = ?s1\<lparr>applied_forces := applied_forces ?s1 @ concat (map (submitted_forces gauss ?s1) ps)\<rparr>"
    by (rule Cons.IH)
  also have "\<dots> = s\<lparr>applied_forces := applied_forces s @ concat (map (submitted_forces gauss s) (p # ps))\<rparr>"
    by (simp add: brownian_closed_form[of gauss p s])
  finally show ?case .
qed

lemma vlength_normalized: "vlength v \<noteq> 0 \<Longrightarrow> vlength (normalized v) = 1"
proof -
  assume nz: "vlength v \<noteq> 0"
  let ?l = "vlength v"
  have l: "?l\<^sup>2 = (fst v)\<^sup>2 + (snd v)\<^sup>2" by (simp add: vlength_def)
  have pos: "0 < ?l" using nz by (simp add: vlength_def less_le)
  have "(fst v / ?l)\<^sup>2 + (snd v / ?l)\<^sup>2 = ((fst v)\<^sup>2 + (snd v)\<^sup>2) / ?l\<^sup>2"
    by (simp add: power_divide add_divide_distrib)
  also have "\<dots> = ?l\<^sup>2 / ?l\<^sup>2" by (simp only: l)
  also have "\<dots> = 1" using nz by simp
  finally have "sqrt ((fst v / ?l)\<^sup>2 + (snd v / ?l)\<^sup>2) = 1" by simp
  then show ?thesis using nz by (simp add: normalized_def) (simp add: vlength_def)
qed

lemma vlength_vscale: "vlength (vscale v k) = vlength v * \<bar>k\<bar>"
proof -
  have "(fst v * k)\<^sup>2 + (snd v * k)\<^sup>2 = ((fst v)\<^sup>2 + (snd v)\<^sup>2) * k\<^sup>2"
    by (simp add: power_mult_distrib distrib_right)
  then show ?thesis by (simp add: vlength_def vscale_def real_sqrt_mult)
qed

lemma vlength_vsub: "vlength (vsub v w) = get_distance v w"
  by (simp add: vlength_def vsub_def get_distance_def)

lemma get_distance_commute: "get_distance v w = get_distance w v"
  by (simp add: get_distance_def power2_commute)

lemma confinement_magnitude:
  assumes "get_distance center pos > 200"
  shows "vlength (confinement_force pos) = (get_distance center pos - 200) * 0.5"
proof -
  from assms have nz: "vlength (vsub center pos) \<noteq> 0" by (simp add: vlength_vsub)
  show ?thesis
    using assms by (simp add: confinement_force_def vlength_vscale vlength_normalized[OF nz])
qed

lemma get_distance_horizontal: "get_distance (a, y) (b, y) = \<bar>a - b\<bar>"
  by (simp add: get_distance_def)

lemma vlength_horizontal: "vlength (a, 0) = \<bar>a\<bar>"
  by (simp add: vlength_def)

lemma get_distance_nonneg: "0 \<le> get_distance v w"
  by (simp add: get_distance_def)

lemma confinement_direction:
  assumes "get_distance center pos > 200"
  shows "confinement_force pos =
     vscale (vsub center pos) ((get_distance center pos - 200) * 0.5 / get_distance center pos)"
proof -
  from assms have nz: "vlength (vsub center pos) \<noteq> 0" by (simp add: vlength_vsub)
  then show ?thesis
    by (simp add: confinement_force_def normalized_def vscale_def vlength_vsub)
qed

lemma boundary_collision_other: "x \<noteq> q \<Longrightarrow> objs (boundary_collision q s) x = objs s x"
  by (simp add: boundary_collision_def Let_def)

lemma boundary_collision_local:
  "objs s1 p = objs s2 p \<Longrightarrow> objs (boundary_collision p s1) p = objs (boundary_collision p s2) p"
  by (simp add: boundary_collision_def Let_def pos_of_def)

lemma fold_boundary_at:
  "distinct ps \<Longrightarrow>
   objs (fold boundary_collision ps s) p =
     (if p \<in> set ps then objs (boundary_collision p s) p else objs s p)"
proof (induction ps arbitrary: s)
  case Nil
  show ?case by simp
next
  case (Cons q ps)
  show ?case
  proof (cases "p = q")
    case True
    with Cons.prems have "p \<notin> set ps" by simp
    with Cons True show ?thesis by simp
  next
    case False
    then have "objs (boundary_collision q s) p = objs s p" by (rule boundary_collision_other)
    moreover from this have "objs (boundary_collision p (boundary_collision q s)) p = objs (boundary_collision p s) p"
      by (rule boundary_collision_local)
    ultimately show ?thesis using Cons False by simp
  qed
qed

lemma get_distance_vadd: "get_distance c (vadd c w) = vlength w"
  by (simp add: get_distance_def vadd_def vlength_def)

lemma clamp_geometry:
  assumes "0 < k" and "k \<le> get_distance center pos"
  shows "get_distance center (vadd center (vscale (normalized (vsub pos center)) k)) = k"
    and "vsub (vadd center (vscale (normalized (vsub pos center)) k)) center =
           vscale (vsub pos center) (k / get_distance center pos)"
    and "0 < k / get_distance center pos"
proof -
  from assms have d: "0 < get_distance center pos" by simp
  then have nz: "vlength (vsub pos center) \<noteq> 0"
    by (simp add: vlength_vsub get_distance_commute[of pos center])
  show "get_distance center (vadd center (vscale (normalized (vsub pos center)) k)) = k"
    using assms(1) by (simp add: get_distance_vadd vlength_vscale vlength_normalized[OF nz])
  show "vsub (vadd center (vscale (normalized (vsub pos center)) k)) center =
           vscale (vsub pos center) (k / get_distance center pos)"
    using nz by (simp add: normalized_def vsub_def vadd_def vscale_def)
       (simp add: vlength_vsub[unfolded vsub_def, of pos center, simplified] get_distance_commute[of pos center])
  show "0 < k / get_distance center pos" using assms(1) d by simp
qed

lemma boundary_collision_at:
  "objs (boundary_collision p s) p =
     (if get_distance center (pos_of s p) \<ge> 200 - radius (objs s p)
      then (objs s p)\<lparr>position := vadd center (vscale (normalized (vsub (pos_of s p) center)) (200 - radius (objs s p))),
                       velocity := vneg (velocity (objs s p))\<rparr>
      else objs s p)"
  by (simp add: boundary_collision_def Let_def)

lemma fold_boundary_others:
  "q \<notin> set ps \<Longrightarrow> objs (fold boundary_collision ps s) q = objs s q"
  by (induction ps arbitrary: s) (simp_all add: boundary_collision_def Let_def)

lemma fold_boundary_rest:
  "bonds (fold boundary_collision ps s) = bonds s \<and> to_remove (fold boundary_collision ps s) = to_remove s \<and>
   space_shapes (fold boundary_collision ps s) = space_shapes s"
  by (induction ps arbitrary: s) (simp_all add: boundary_collision_def Let_def)

lemma link_pair_fields:
  "wf link_pair" "particles link_pair = [0, 1]" "next_id link_pair = 2"
  "ptype (objs link_pair 0) = LINK" "ptype (objs link_pair 1) = LINK"
  "sensor (objs link_pair 0) = Some (Sensor 0)" "sensor (objs link_pair 1) = Some (Sensor 1)"
  "shape (objs link_pair 0) = Shape 0" "shape (objs link_pair 1) = Shape 1"
  "max_connections (objs link_pair 0) = 2" "max_connections (objs link_pair 1) = 2"
  "conns link_pair 0 = []" "conns link_pair 1 = []" "bonds link_pair = []" "to_remove link_pair = []"
  "position (objs link_pair 0) = (400, 400)" "age (objs link_pair 0) = 0" "age (objs link_pair 1) = 0"
  unfolding link_pair_def
  by (simp_all add: wf_create_link wf_empty,
      simp_all add: create_link_def new_Particle_def empty_simulation_def conns_def)

lemma bonded_pair_eq: "bonded_pair = create_bond 0 1 link_pair"
proof -
  have "p1_candidates (Sensor 0) link_pair = [0]" "p2_candidates (Shape 1) link_pair = [1]"
    by (simp_all add: p1_candidates_def p2_candidates_def link_pair_fields)
  moreover have "may_bond 0 1 link_pair"
    by (simp add: may_bond_def link_pair_fields)
  ultimately show ?thesis by (simp add: bonded_pair_def handle_link_detection_def)
qed

lemma aged_pair_fields:
  "wf aged_pair" "particles aged_pair = [0, 1]" "next_id aged_pair = 2"
  "ptype (objs aged_pair 0) = LINK" "ptype (objs aged_pair 1) = LINK"
  "shape (objs aged_pair 0) = Shape 0" "shape (objs aged_pair 1) = Shape 1"
  "conns aged_pair 0 = [1]" "conns aged_pair 1 = [0]" "length (bonds aged_pair) = 1" "to_remove aged_pair = []"
  "position (objs aged_pair 0) = (400, 400)" "age (objs aged_pair 0) = 1000" "age (objs aged_pair 1) = 0"
proof -
  have st: "static (objs aged_pair q) = static (objs link_pair q)" for q
    using create_bond_fields(5)[of 0 1 link_pair q] create_bond_fields(5)[of 0 1 link_pair 0]
    by (auto simp: aged_pair_def bonded_pair_eq static_def)
  have "built q (objs aged_pair q) = built q (objs link_pair q)" for q
    by (rule built_static) (rule st)
  then show "wf aged_pair"
    using link_pair_fields(1) by (simp add: wf_def) (simp add: aged_pair_def bonded_pair_eq)
  show "particles aged_pair = [0, 1]" "next_id aged_pair = 2" "length (bonds aged_pair) = 1" "to_remove aged_pair = []"
    by (simp_all add: aged_pair_def bonded_pair_eq link_pair_fields)
  from st[of 0] st[of 1] show "ptype (objs aged_pair 0) = LINK" "ptype (objs aged_pair 1) = LINK"
    "shape (objs aged_pair 0) = Shape 0" "shape (objs aged_pair 1) = Shape 1"
    by (simp_all add: static_def link_pair_fields)
  show "conns aged_pair 0 = [1]" "conns aged_pair 1 = [0]"
    using conns_create_bond[of 0 1 link_pair]
    by (simp_all add: aged_pair_def bonded_pair_eq conns_def link_pair_fields[unfolded conns_def])
  show "position (objs aged_pair 0) = (400, 400)" "age (objs aged_pair 0) = 1000" "age (objs aged_pair 1) = 0"
    by (simp_all add: aged_pair_def bonded_pair_eq create_bond_def append_connection_def Let_def link_pair_fields)
qed

lemma aged_pair2_fields:
  "wf aged_pair2" "objs aged_pair2 = objs aged_pair" "particles aged_pair2 = [0, 1]" "next_id aged_pair2 = 2"
  "length (bonds aged_pair2) = 1" "to_remove aged_pair2 = []"
proof -
  show "wf aged_pair2" unfolding aged_pair2_def using aged_pair_fields(1) by (rule wf_brownian)
  show "objs aged_pair2 = objs aged_pair" "particles aged_pair2 = [0, 1]" "next_id aged_pair2 = 2"
    "length (bonds aged_pair2) = 1" "to_remove aged_pair2 = []"
    unfolding aged_pair2_def
    by (simp_all add: apply_brownian_motion_def fold_brownian_fields fold_brownian_lists)
       (simp_all add: aged_pair_fields)
qed

lemma aged_pair2_disintegration:
  "\<exists>t. handle_disintegration roll_zero aged_pair2 = Inr t \<and> particles t = [0, 1] \<and> next_id t = 4 \<and>
       length (bonds t) = 1 \<and> to_remove t = [(Some (Shape 0), None)] \<and>
       conns t 1 = [] \<and> conns t 0 = [1] \<and>
       ptype (objs t 0) = LINK \<and> ptype (objs t 1) = LINK \<and>
       ptype (objs t 2) = SUBSTRATE \<and> position (objs t 2) = (410, 400) \<and>
       ptype (objs t 3) = SUBSTRATE \<and> position (objs t 3) = (390, 400)"
proof -
  let ?s = aged_pair2
  have c: "conns ?s 0 = [1]" "conns ?s 1 = [0]"
    by (simp_all add: conns_def aged_pair2_fields aged_pair_fields[unfolded conns_def])
  have o: "ptype (objs ?s 0) = LINK" "age (objs ?s 0) = 1000" "position (objs ?s 0) = (400, 400)"
    "shape (objs ?s 0) = Shape 0" "ptype (objs ?s 1) = LINK" "age (objs ?s 1) = 0"
    by (simp_all add: aged_pair2_fields aged_pair_fields)
  let ?h = "unlink 0 {1} ((objs ?s)(0 := (objs ?s 0)\<lparr>age := age (objs ?s 0) + 1\<rparr>))"
  let ?s3 = "snd (new_Particle 410 400 SUBSTRATE (?s\<lparr>objs := ?h\<rparr>))"
  let ?s4 = "snd (new_Particle 390 400 SUBSTRATE ?s3)"
  let ?u = "?s4\<lparr>to_remove := [(Some (Shape 0), None)]\<rparr>"
  have "disintegrate roll_zero 0 ?s = Inr ?u"
    by (subst disintegrate_fires) (simp_all add: c o roll_zero_def aged_pair2_fields(4,6) Let_def)
  moreover have u1: "ptype (objs ?u 1) = LINK" "age (objs ?u 1) = 0"
    by (simp_all add: aged_pair2_fields(4) unlink_def o)
  then have "disintegrate roll_zero 1 ?u =
      Inr (?u\<lparr>objs := (objs ?u)(1 := (objs ?u 1)\<lparr>age := age (objs ?u 1) + 1\<rparr>)\<rparr>)"
    by (simp add: disintegrate_def Let_def)
  ultimately have run: "handle_disintegration roll_zero ?s =
      Inr (?u\<lparr>objs := (objs ?u)(1 := (objs ?u 1)\<lparr>age := age (objs ?u 1) + 1\<rparr>)\<rparr>)"
    by (simp add: handle_disintegration_def aged_pair2_fields(3))
  show ?thesis
    unfolding run
    by (rule exI[of _ "?u\<lparr>objs := (objs ?u)(1 := (objs ?u 1)\<lparr>age := age (objs ?u 1) + 1\<rparr>)\<rparr>"])
       (simp add: aged_pair2_fields(3,4,5) conns_def unlink_def o c[unfolded conns_def]
          new_Particle_def Let_def)
qed

lemma hbc_fields:
  "particles (handle_boundary_collision s) = particles s"
  "next_id (handle_boundary_collision s) = next_id s"
  "bonds (handle_boundary_collision s) = bonds s"
  "to_remove (handle_boundary_collision s) = to_remove s"
  "static (objs (handle_boundary_collision s) q) = static (objs s q)"
  "connections (objs (handle_boundary_collision s) q) = connections (objs s q)"
  "q \<notin> set (particles s) \<Longrightarrow> objs (handle_boundary_collision s) q = objs s q"
  by (simp_all add: handle_boundary_collision_def fold_boundary_fields fold_boundary_rest
       fold_boundary_others)

lemma filter_single: "distinct xs \<Longrightarrow> x \<in> set xs \<Longrightarrow> filter (\<lambda>p. p = x) xs = [x]"
proof (induction xs)
  case Nil
  then show ?case by simp
next
  case (Cons y ys)
  show ?case
  proof (cases "y = x")
    case True
    with Cons.prems have "x \<notin> set ys" by simp
    then have "filter (\<lambda>p. p = x) ys = []" by (auto simp: filter_empty_conv)
    with True show ?thesis by simp
  next
    case False
    with Cons show ?thesis by simp
  qed
qed

lemma wf_p1_candidates:
  assumes "wf s" and "x \<in> set (particles s)" and "ptype (objs s x) = LINK"
  shows "p1_candidates (Sensor x) s = [x]"
proof -
  have "sensor (objs s p) = Some (Sensor x) \<longleftrightarrow> p = x" if "p \<in> set (particles s)" for p
  proof -
    from that assms(1) have "built p (objs s p)" by (simp add: wf_def)
    moreover from assms have "built x (objs s x)" by (simp add: wf_def)
    ultimately show ?thesis using assms(3) by (auto simp: built_def split: if_splits)
  qed
  then have "filter (\<lambda>p. sensor (objs s p) = Some (Sensor x)) (particles s) =
      filter (\<lambda>p. p = x) (particles s)"
    by (intro filter_cong refl) simp
  moreover from assms(1) have "distinct (particles s)" by (simp add: wf_def)
  ultimately show ?thesis using assms(2) by (simp add: p1_candidates_def filter_single)
qed

lemma wf_p2_candidates:
  assumes "wf s" and "x \<in> set (particles s)"
  shows "p2_candidates (Shape x) s = [x]"
proof -
  have "shape (objs s p) = Shape x \<longleftrightarrow> p = x" if "p \<in> set (particles s)" for p
    using wf_shape[OF assms(1) that] by auto
  then have "filter (\<lambda>p. shape (objs s p) = Shape x) (particles s) =
      filter (\<lambda>p. p = x) (particles s)"
    by (intro filter_cong refl) simp
  moreover from assms(1) have "distinct (particles s)" by (simp add: wf_def)
  ultimately show ?thesis using assms(2) by (simp add: p2_candidates_def filter_single)
qed

lemma crowded2_links:
  "conns crowded2 301 = []" "conns crowded2 302 = []"
  "max_connections (objs crowded2 301) = 2" "max_connections (objs crowded2 302) = 2"
  "(301::nat) \<in> set (particles crowded2)" "(302::nat) \<in> set (particles crowded2)"
proof -
  have "connections (objs (snd (create_link (400, 400) crowded)) (next_id crowded)) = []"
    by (rule create_link_fields)
  then have a: "connections (objs crowded1 301) = []" by (simp add: crowded1_eq crowded_fields)
  have "objs crowded2 301 = objs crowded1 301" by (simp add: crowded2_eq crowded1_fields)
  with a show "conns crowded2 301 = []" by (simp add: conns_def)
  have "connections (objs (snd (create_link (400, 400) crowded1)) (next_id crowded1)) = []"
    by (rule create_link_fields)
  then show "conns crowded2 302 = []" by (simp add: crowded2_eq crowded1_fields conns_def)
  show m: "(301::nat) \<in> set (particles crowded2)" "(302::nat) \<in> set (particles crowded2)"
    by (simp_all add: crowded2_fields)
  from m crowded2_fields(1) have "built 301 (objs crowded2 301)" "built 302 (objs crowded2 302)"
    by (simp_all add: wf_def)
  then show "max_connections (objs crowded2 301) = 2" "max_connections (objs crowded2 302) = 2"
    by (simp_all add: built_def crowded2_fields)
qed

lemma crowded3_eq: "crowded3 = create_bond 301 302 crowded2"
proof -
  have "p1_candidates (Sensor 301) crowded2 = [301]"
    by (rule wf_p1_candidates) (simp_all add: crowded2_fields)
  moreover have "p2_candidates (Shape 302) crowded2 = [302]"
    by (rule wf_p2_candidates) (simp_all add: crowded2_fields)
  moreover have "may_bond 301 302 crowded2" by (simp add: may_bond_def crowded2_links)
  ultimately show ?thesis by (simp add: crowded3_def handle_link_detection_def)
qed

lemma crowded3_fields:
  "next_id crowded3 = 303" "particles crowded3 = [0..<301] @ [301, 302]"
  "to_remove crowded3 = [(Some (Shape 1), None), (Some (Shape 2), None), (Some (Shape 3), None), (Some (Shape 1), None)]"
  "length (bonds crowded3) = Suc (length (bonds crowded2))"
  "conns crowded3 301 = [302]" "conns crowded3 302 = [301]"
  "ptype (objs crowded3 301) = LINK" "ptype (objs crowded3 302) = LINK"
proof -
  show "next_id crowded3 = 303" "particles crowded3 = [0..<301] @ [301, 302]"
    "to_remove crowded3 = [(Some (Shape 1), None), (Some (Shape 2), None), (Some (Shape 3), None), (Some (Shape 1), None)]"
    "length (bonds crowded3) = Suc (length (bonds crowded2))"
    by (simp_all add: crowded3_eq crowded2_fields)
  show "conns crowded3 301 = [302]" "conns crowded3 302 = [301]"
    by (simp_all add: crowded3_eq conns_create_bond crowded2_links)
  have "static (objs crowded3 q) = static (objs crowded2 q)" for q
    unfolding crowded3_eq by (rule create_bond_fields)
  from this[of 301] this[of 302]
  show "ptype (objs crowded3 301) = LINK" "ptype (objs crowded3 302) = LINK"
    by (simp_all add: static_def crowded2_fields)
qed

lemma bonds_crowded2: "bonds crowded2 = []"
  by (simp add: crowded2_eq crowded1_eq crowded_fields)

lemma reachable_crowded3: "reachable crowded3"
proof -
  have r0: "reachable crowded" unfolding crowded_def by (rule reachable.init)
  have ok1: "operation_ok crowded (Physics (Separate 0 0 (Shape 1)))"
    by (simp add: crowded_fields crowded_substrate)
  have "run_operation (Physics (Separate 0 0 (Shape 1))) crowded = Inr crowded1"
    by (simp add: crowded1_def)
  with r0 ok1 have r1: "reachable crowded1" by (rule reachable.step)
  have ok2: "operation_ok crowded1 (Physics (Separate 0 0 (Shape 3)))"
    by (simp add: crowded1_fields crowded1_substrate)
  have "run_operation (Physics (Separate 0 0 (Shape 3))) crowded1 = Inr crowded2"
    by (simp add: crowded2_def)
  with r1 ok2 have r2: "reachable crowded2" by (rule reachable.step)
  have ok3: "operation_ok crowded2 (Physics (Begin (Sensor 301) (Shape 302)))"
    by (simp add: crowded2_fields)
  have "run_operation (Physics (Begin (Sensor 301) (Shape 302))) crowded2 = Inr crowded3"
    by (simp add: crowded3_def)
  with r2 ok3 show ?thesis by (rule reachable.step)
qed

section \<open>Degree bounds of the bond graph\<close>

text \<open>
  Claim C3. In every state that any sequence of the engine's operations (physics
  actions with their callbacks, forces, disintegration, boundary, flush, statistics)
  reaches from the set-up, every particle object built so far, whether it is in the
  list \<^verbatim>\<open>particles\<close>, pending removal, removed or never listed, has at most 2
  connections when it is a LINK and none when it is not.
\<close>

theorem connections_within_bounds:
  assumes "reachable s" and "p < next_id s"
  shows "(ptype (objs s p) = LINK \<longrightarrow> length (conns s p) \<le> 2) \<and>
         (ptype (objs s p) \<noteq> LINK \<longrightarrow> conns s p = [])"
proof -
  from assms(1) have "wf s" "degree_ok s" by (simp_all add: reachable_wf_degree)
  with assms(2) have "built p (objs s p)" "length (conns s p) \<le> max_connections (objs s p)"
    by (simp_all add: wf_def degree_ok_def)
  then show ?thesis by (auto simp: built_def)
qed

text \<open>
  A reachable state with a bond: after the set-up with every substrate at the centre,
  two reactions create the links 301 and 302, and the overlap event of the sensor of
  301 with the body of 302 bonds them. Link 301 has the one connection 302; substrate
  1 has none.
\<close>

theorem connections_within_bounds_witness:
  "reachable crowded3 \<and> (301::nat) < next_id crowded3 \<and> ptype (objs crowded3 301) = LINK \<and>
   conns crowded3 301 = [302] \<and> length (conns crowded3 301) \<le> 2 \<and>
   (1::nat) < next_id crowded3 \<and> ptype (objs crowded3 1) \<noteq> LINK \<and> conns crowded3 1 = []"
proof -
  have a: "(301::nat) < next_id crowded3" "(1::nat) < next_id crowded3" by (simp_all add: crowded3_fields)
  have "static (objs crowded3 1) = static (objs crowded2 1)"
    unfolding crowded3_eq by (rule create_bond_fields)
  then have b: "ptype (objs crowded3 1) \<noteq> LINK"
    using crowded2_substrate[of 1] by (simp add: static_def)
  from connections_within_bounds[OF reachable_crowded3 a(1)]
       connections_within_bounds[OF reachable_crowded3 a(2)] a b reachable_crowded3
  show ?thesis by (simp add: crowded3_fields)
qed

section \<open>The bond formation rule\<close>

text \<open>
  Claim C5. A sensor/link begin-overlap event in a well-formed state (every reachable
  state is one) that resolves to the particles \<open>p1\<close> (owner of the sensor) and \<open>p2\<close>
  (owner of the body shape): when \<open>p1 \<noteq> p2\<close>, both have fewer than 2 connections and
  \<open>p2\<close> is not among \<open>p1\<close>'s connections, exactly one bond between the two bodies is
  appended and each particle is appended to the other's connections; otherwise the
  state is unchanged. Both particles have \<^verbatim>\<open>max_connections\<close> 2. Running the same event
  again changes nothing.
\<close>

theorem bond_formation_rule:
  assumes "wf s" and "action_ok s (Begin link_sensor link_shape)"
    and "p1_candidates link_sensor s = p1 # r1" and "p2_candidates link_shape s = p2 # r2"
  shows "(p1 \<noteq> p2 \<and> length (conns s p1) < 2 \<and> length (conns s p2) < 2 \<and> p2 \<notin> set (conns s p1) \<longrightarrow>
            (\<exists>j. bonds (handle_link_detection link_sensor link_shape s) = bonds s @ [j] \<and>
                 body_a j = p1 \<and> body_b j = p2) \<and>
            conns (handle_link_detection link_sensor link_shape s) p1 = conns s p1 @ [p2] \<and>
            conns (handle_link_detection link_sensor link_shape s) p2 = conns s p2 @ [p1]) \<and>
         (\<not> (p1 \<noteq> p2 \<and> length (conns s p1) < 2 \<and> length (conns s p2) < 2 \<and> p2 \<notin> set (conns s p1)) \<longrightarrow>
            handle_link_detection link_sensor link_shape s = s) \<and>
         max_connections (objs s p1) = 2 \<and> max_connections (objs s p2) = 2 \<and>
         handle_link_detection link_sensor link_shape (handle_link_detection link_sensor link_shape s) =
           handle_link_detection link_sensor link_shape s"
proof -
  let ?t = "handle_link_detection link_sensor link_shape s"
  let ?go = "p1 \<noteq> p2 \<and> length (conns s p1) < 2 \<and> length (conns s p2) < 2 \<and> p2 \<notin> set (conns s p1)"
  from assms(2) have ct: "collision_type s link_shape = type_value LINK" by simp
  have m1: "max_connections (objs s p1) = 2" using sensor_owner_is_link[OF assms(1,3)] by simp
  have m2: "max_connections (objs s p2) = 2" using link_shape_owner_is_link[OF assms(1,4) ct] by simp
  have go: "may_bond p1 p2 s \<longleftrightarrow> ?go" by (simp add: may_bond_def m1 m2)
  have t: "?t = (if ?go then create_bond p1 p2 s else s)"
    using hld_resolved[OF assms(3,4)] go by simp
  have fire: "(\<exists>j. bonds ?t = bonds s @ [j] \<and> body_a j = p1 \<and> body_b j = p2) \<and>
      conns ?t p1 = conns s p1 @ [p2] \<and> conns ?t p2 = conns s p2 @ [p1]" if "?go"
    using that t by (simp add: conns_create_bond)
  have idle: "?t = s" if "\<not> ?go" using that t by auto
  have idem: "handle_link_detection link_sensor link_shape ?t = ?t"
  proof (cases ?go)
    case False
    then show ?thesis using idle by simp
  next
    case True
    then have tt: "?t = create_bond p1 p2 s" using t by simp
    have "p2 \<in> set (conns (create_bond p1 p2 s) p1)" using True by (simp add: conns_create_bond)
    then have "\<not> may_bond p1 p2 (create_bond p1 p2 s)" by (simp add: may_bond_def)
    then have "handle_link_detection link_sensor link_shape (create_bond p1 p2 s) = create_bond p1 p2 s"
      using hld_resolved[of link_sensor "create_bond p1 p2 s" p1 r1 link_shape p2 r2] assms(3,4) by simp
    with tt show ?thesis by simp
  qed
  from fire idle idem m1 m2 show ?thesis by blast
qed

lemma two_links_fields:
  "wf two_links" "particles two_links = [0, 1]" "next_id two_links = 2"
  "ptype (objs two_links 0) = LINK" "ptype (objs two_links 1) = LINK"
  "sensor (objs two_links 0) = Some (Sensor 0)" "sensor (objs two_links 1) = Some (Sensor 1)"
  "shape (objs two_links 0) = Shape 0" "shape (objs two_links 1) = Shape 1"
  "conns two_links 0 = []" "conns two_links 1 = []" "bonds two_links = []"
  unfolding two_links_def
  by (simp_all add: wf_create_link wf_empty, simp_all add: create_link_def new_Particle_def empty_simulation_def conns_def)

text \<open>Two fresh links at (0, 0) and (10, 0): the overlap event bonds them.\<close>

theorem bond_formation_rule_witness:
  "wf two_links \<and> action_ok two_links (Begin (Sensor 0) (Shape 1)) \<and>
   p1_candidates (Sensor 0) two_links = [0] \<and> p2_candidates (Shape 1) two_links = [1] \<and>
   conns (handle_link_detection (Sensor 0) (Shape 1) two_links) 0 = [1] \<and>
   conns (handle_link_detection (Sensor 0) (Shape 1) two_links) 1 = [0] \<and>
   length (bonds (handle_link_detection (Sensor 0) (Shape 1) two_links)) = 1"
proof -
  have c1: "p1_candidates (Sensor 0) two_links = [0]" and c2: "p2_candidates (Shape 1) two_links = [1]"
    by (simp_all add: p1_candidates_def p2_candidates_def two_links_fields del: One_nat_def)
  have ok: "action_ok two_links (Begin (Sensor 0) (Shape 1))"
    by (simp add: two_links_fields del: One_nat_def)
  from bond_formation_rule[OF two_links_fields(1) ok c1 c2] c1 c2 ok two_links_fields(1)
  show ?thesis by (auto simp: two_links_fields simp del: One_nat_def)
qed

section \<open>Bonds are never removed\<close>

text \<open>
  Claim C9. In every reachable state every pending mutation has no bond component
  (\<open>None\<close>); the flush of an entry without a bond component leaves the list \<^verbatim>\<open>bonds\<close> as it
  is; hence along any further sequence of operations the list \<^verbatim>\<open>bonds\<close> is only ever
  extended at its end, and the bond count that \<^verbatim>\<open>update_stats\<close> reports never decreases.
\<close>

theorem bonds_never_removed:
  assumes "reachable s" and "operations_ok s ops" and "run_operations ops s = Inr t"
  shows "(\<forall>e \<in> set (to_remove s). snd e = None) \<and>
         (\<forall>e u v. snd e = None \<and> flush_entry e u = Inr v \<longrightarrow> bonds v = bonds u) \<and>
         (\<exists>js. bonds t = bonds s @ js) \<and>
         snd (snd (stats (update_stats s))) \<le> snd (snd (stats (update_stats t)))"
proof -
  from assms(1) have nb: "no_bond_pending s" by (rule reachable_no_bond_pending)
  from run_operations_bonds[OF nb assms(3)] obtain js where js: "bonds t = bonds s @ js" ..
  then have "snd (snd (stats (update_stats s))) \<le> snd (snd (stats (update_stats t)))"
    by (simp add: update_stats_def)
  with nb js show ?thesis using flush_entry_no_bond by (auto simp: no_bond_pending_def)
qed

text \<open>
  The same reachable state, with the bond between the links 301 and 302 and four
  removals pending: the flush and the recount keep the bond, and the count is 1.
\<close>

theorem bonds_never_removed_witness:
  "reachable crowded3 \<and> operations_ok crowded3 [Flush, Stats] \<and>
   length (to_remove crowded3) = 4 \<and> length (bonds crowded3) = 1 \<and>
   conns crowded3 301 = [302] \<and>
   (\<exists>t. run_operations [Flush, Stats] crowded3 = Inr t \<and> bonds t = bonds crowded3 \<and>
        snd (snd (stats t)) = 1)"
proof -
  have w: "wf crowded3" using crowded2_fields(1) unfolding crowded3_eq by (rule wf_create_bond)
  have nb: "no_bond_pending crowded3" by (simp add: no_bond_pending_def crowded3_fields)
  from wf_flush_particles[OF w nb] obtain u where u: "flush crowded3 = Inr u" "bonds u = bonds crowded3"
    by blast
  have run: "run_operations [Flush, Stats] crowded3 = Inr (update_stats u)" by (simp add: u)
  have ok: "operations_ok crowded3 [Flush, Stats]" by (simp add: u)
  have l: "length (bonds crowded3) = 1" by (simp add: crowded3_fields bonds_crowded2)
  from bonds_never_removed[OF reachable_crowded3 ok run]
  obtain js where js: "bonds (update_stats u) = bonds crowded3 @ js" by blast
  have "bonds (update_stats u) = bonds crowded3" "snd (snd (stats (update_stats u))) = 1"
    using l by (simp_all add: update_stats_def u)
  with run have "\<exists>t. run_operations [Flush, Stats] crowded3 = Inr t \<and> bonds t = bonds crowded3 \<and>
        snd (snd (stats t)) = 1" by blast
  with reachable_crowded3 ok l js show ?thesis by (simp add: crowded3_fields)
qed

section \<open>Flushing a removal twice\<close>

text \<open>
  Claim C7. In a well-formed state (every reachable state is one), removing the
  particle of a shape a second time finds no particle with that shape, raises nothing
  and changes nothing but the printed output, to which it adds the warning. For the
  whole flush: a queue that holds the same remove-particle mutation twice, with any
  other mutations before, between and after, is flushed to the same state as the queue
  without the second copy, printed output apart (and to the same error, when a
  mutation with a bond raises one).
\<close>

theorem flush_twice_as_once:
  assumes "wf s"
  shows "absent sh (remove_particle sh s) \<and>
         remove_particle sh (remove_particle sh s) =
           (remove_particle sh s)\<lparr>stdout := stdout (remove_particle sh s) @ [not_found_warning]\<rparr> \<and>
         same_registry
           (flush (s\<lparr>to_remove := es1 @ [(Some sh, None)] @ es2 @ es3\<rparr>))
           (flush (s\<lparr>to_remove := es1 @ [(Some sh, None)] @ es2 @ [(Some sh, None)] @ es3\<rparr>))"
proof -
  have gone: "absent sh (remove_particle sh s)" using assms by (rule absent_after_remove)
  have again: "remove_particle sh (remove_particle sh s) =
      (remove_particle sh s)\<lparr>stdout := stdout (remove_particle sh s) @ [not_found_warning]\<rparr>"
    using gone by (rule remove_particle_absent)
  let ?once = "es1 @ [(Some sh, None)] @ es2 @ es3"
  let ?twice = "es1 @ [(Some sh, None)] @ es2 @ [(Some sh, None)] @ es3"
  have entries: "same_registry (flush_entries ?once s0) (flush_entries ?twice s0)"
    if "wf s0" for s0
  proof (cases "flush_entries es1 s0")
    case (Inl err)
    then show ?thesis by (simp add: flush_entries_append same_registry_refl)
  next
    case (Inr u1)
    with that have "wf u1" using wf_flush_entries by blast
    then have a: "absent sh (remove_particle sh u1)" by (rule absent_after_remove)
    show ?thesis
    proof (cases "flush_entries es2 (remove_particle sh u1)")
      case (Inl err)
      with Inr show ?thesis
        by (simp add: flush_entries_append flush_entry_def same_registry_refl)
    next
      case u2: (Inr u2)
      with a have "absent sh u2" using absent_flush_entries by blast
      then have "remove_particle sh u2 = u2\<lparr>stdout := stdout u2 @ [not_found_warning]\<rparr>"
        by (rule remove_particle_absent)
      with Inr u2 show ?thesis
        using registry_eq_flush_entries[of u2 "u2\<lparr>stdout := stdout u2 @ [not_found_warning]\<rparr>" es3]
        by (simp add: flush_entries_append flush_entry_def registry_eq_def)
    qed
  qed
  have "same_registry (flush (s\<lparr>to_remove := ?once\<rparr>)) (flush (s\<lparr>to_remove := ?twice\<rparr>))"
    unfolding flush_queue using entries[OF assms] by (rule same_registry_clear)
  with gone again show ?thesis by blast
qed

text \<open>Removing the first of two links twice.\<close>

theorem flush_twice_as_once_witness:
  "wf two_links \<and>
   particles (remove_particle (Shape 0) two_links) = [1] \<and>
   absent (Shape 0) (remove_particle (Shape 0) two_links) \<and>
   particles (remove_particle (Shape 0) (remove_particle (Shape 0) two_links)) = [1] \<and>
   same_registry
     (flush (two_links\<lparr>to_remove := [(Some (Shape 0), None)]\<rparr>))
     (flush (two_links\<lparr>to_remove := [(Some (Shape 0), None), (Some (Shape 0), None)]\<rparr>))"
proof -
  have p: "particles (remove_particle (Shape 0) two_links) = [1]"
    by (simp add: particles_remove_particle two_links_fields del: One_nat_def)
  from flush_twice_as_once[OF two_links_fields(1), of "Shape 0" "[]" "[]" "[]"] p two_links_fields(1)
  show ?thesis by simp
qed

section \<open>A substrate consumed by two reactions\<close>

text \<open>
  Claim C2 says that a substrate which an earlier catalyst-separation event of the tick
  has enqueued for removal is never selected as the neighbour by a later event. The
  code does not consult the queue: \<open>nearby_substrates\<close> reads the list \<^verbatim>\<open>particles\<close>, which
  changes only at the flush. After the set-up with every substrate at the centre, the
  separation event of substrate 1 consumes substrates 1 and 2; the separation event of
  substrate 3 in the same physics step then selects substrate 1 again.
\<close>

theorem double_consumption_counterexample:
  "tick_reachable crowded \<and>
   actions_ok crowded [Separate 0 0 (Shape 1), Separate 0 0 (Shape 3)] \<and>
   crowded1 = run_action (Separate 0 0 (Shape 1)) crowded \<and>
   to_remove crowded1 = [(Some (Shape 1), None), (Some (Shape 2), None)] \<and>
   ptype (objs crowded1 1) = SUBSTRATE \<and>
   random_choice 0 (nearby_substrates (Shape 3) crowded1) = 1 \<and>
   to_remove (run_action (Separate 0 0 (Shape 3)) crowded1) =
     [(Some (Shape 1), None), (Some (Shape 2), None), (Some (Shape 3), None), (Some (Shape 1), None)]"
proof -
  have "tick_reachable crowded" unfolding crowded_def by (rule tick_reachable.start)
  moreover have "actions_ok crowded [Separate 0 0 (Shape 1), Separate 0 0 (Shape 3)]"
    by (simp add: crowded_fields crowded_substrate crowded1_def[symmetric] crowded1_fields crowded1_substrate
          del: One_nat_def)
  moreover from nearby_crowded1 have "random_choice 0 (nearby_substrates (Shape 3) crowded1) = 1"
    by auto
  moreover have "to_remove (run_action (Separate 0 0 (Shape 3)) crowded1) =
     [(Some (Shape 1), None), (Some (Shape 2), None), (Some (Shape 3), None), (Some (Shape 1), None)]"
    by (simp add: crowded2_def[symmetric] crowded2_eq del: One_nat_def)
  ultimately show ?thesis
    by (simp add: crowded1_def[symmetric] crowded1_fields crowded1_substrate del: One_nat_def)
qed

text \<open>
  Claim C2 as amended. The neighbour of a reaction event is a particle of the list
  \<^verbatim>\<open>particles\<close> of kind SUBSTRATE, other than the event's own substrate, at distance below
  40 from it; and the candidates are the same whatever the queue of pending removals
  holds, so that a substrate enqueued earlier in the tick can be selected again.
\<close>

theorem neighbour_selection:
  assumes "nearby_substrates sh s \<noteq> []"
  shows "random_choice k (nearby_substrates sh s) \<in> set (particles s) \<and>
         ptype (objs s (random_choice k (nearby_substrates sh s))) = SUBSTRATE \<and>
         shape (objs s (random_choice k (nearby_substrates sh s))) \<noteq> sh \<and>
         distance (pos_of s (shape_body sh)) (pos_of s (random_choice k (nearby_substrates sh s))) < 40 \<and>
         nearby_substrates sh (s\<lparr>to_remove := r\<rparr>) = nearby_substrates sh s"
proof -
  from assms have "k mod length (nearby_substrates sh s) < length (nearby_substrates sh s)" by simp
  then have "random_choice k (nearby_substrates sh s) \<in> set (nearby_substrates sh s)"
    unfolding random_choice_def by (rule nth_mem)
  moreover have "nearby_substrates sh (s\<lparr>to_remove := r\<rparr>) = nearby_substrates sh s"
    by (simp add: nearby_substrates_def pos_of_def)
  ultimately show ?thesis by (simp add: nearby_substrates_def)
qed

text \<open>The second event of the counterexample: its neighbour, substrate 1, is pending.\<close>

theorem neighbour_selection_witness:
  "nearby_substrates (Shape 3) crowded1 \<noteq> [] \<and>
   random_choice 0 (nearby_substrates (Shape 3) crowded1) = 1 \<and>
   (1::nat) \<in> set (particles crowded1) \<and>
   (Some (Shape 1), None) \<in> set (to_remove crowded1) \<and>
   distance (pos_of crowded1 (shape_body (Shape 3))) (pos_of crowded1 1) < 40"
proof -
  from nearby_crowded1 obtain rest where n: "nearby_substrates (Shape 3) crowded1 = 1 # rest" ..
  then have ne: "nearby_substrates (Shape 3) crowded1 \<noteq> []" by simp
  from neighbour_selection[OF ne, of 0] n ne show ?thesis
    by (simp add: crowded1_fields del: One_nat_def)
qed

section \<open>Conservation in the reaction rule\<close>

text \<open>
  Claim C4 says that every reaction that fires removes, after the flush, exactly two
  substrates and lowers the particle count by one. In the state \<open>crowded1\<close> (one reaction
  already pending: substrates 1 and 2) the separation event of substrate 3 fires and
  selects substrate 1 again. From the 302 particles (300 substrates) before the event
  the flush leaves 300 (297 substrates); the flush without the event leaves 300 as well
  (298 substrates). So this firing removes three substrates counted from the state
  before it, one counted against the flush without it, and never lowers the count by one.
\<close>

theorem reaction_conservation_counterexample:
  "action_ok crowded1 (Separate 0 0 (Shape 3)) \<and> (0::real) < 0.15 \<and>
   nearby_substrates (Shape 3) crowded1 \<noteq> [] \<and>
   crowded2 = handle_catalyst_substrate 0 0 (Shape 3) crowded1 \<and>
   length (particles crowded1) = 302 \<and> fst (stats (update_stats crowded1)) = 300 \<and>
   map_sum id (length \<circ> particles) (flush crowded2) = Inr 300 \<and>
   map_sum id (fst \<circ> stats \<circ> update_stats) (flush crowded2) = Inr 297 \<and>
   map_sum id (length \<circ> particles) (flush crowded1) = Inr 300 \<and>
   map_sum id (fst \<circ> stats \<circ> update_stats) (flush crowded1) = Inr 298"
proof -
  from nearby_crowded1 have ne: "nearby_substrates (Shape 3) crowded1 \<noteq> []" by auto
  have ok: "action_ok crowded1 (Separate 0 0 (Shape 3))"
    by (simp add: crowded1_fields crowded1_substrate)
  have before: "length (particles crowded1) = 302" "fst (stats (update_stats crowded1)) = 300"
    using substrates_crowded1_before by (simp_all add: update_stats_def crowded1_fields del: upt_Suc)
  from flush_crowded2 obtain t2 where t2: "flush crowded2 = Inr t2" "objs t2 = objs crowded2"
    "particles t2 = 0 # [4..<301] @ [301, 302]" by blast
  from flush_crowded1 obtain t1 where t1: "flush crowded1 = Inr t1" "objs t1 = objs crowded1"
    "particles t1 = 0 # [3..<301] @ [301]" by blast
  have c2: "length (particles t2) = 300" "fst (stats (update_stats t2)) = 297"
    using substrates_crowded2 by (simp_all add: update_stats_def t2 del: upt_Suc)
  have c1: "length (particles t1) = 300" "fst (stats (update_stats t1)) = 298"
    using substrates_crowded1 by (simp_all add: update_stats_def t1 del: upt_Suc)
  have "crowded2 = handle_catalyst_substrate 0 0 (Shape 3) crowded1" by (rule crowded2_def)
  with ok ne before c1 c2 show ?thesis by (simp add: t1(1) t2(1))
qed

text \<open>
  Claim C4 as amended. A catalyst-substrate separation event for a substrate \<open>p\<close> of the
  particle list that is not already pending removal, in a well-formed state whose queue
  holds removals of particles built so far: when the roll is below 0.15, some other
  substrate lies within distance 40 and the selected one, \<open>q\<close>, is not already pending
  removal either, then the flush after the event yields the particle list of the flush
  without the event, less \<open>p\<close> and \<open>q\<close>, plus one new LINK at the midpoint of the two:
  two substrates fewer, one link more, one particle fewer in total. When the roll fails
  or there is no neighbour, the event changes nothing.
\<close>

theorem reaction_conservation:
  assumes "wf s" and "no_bond_pending s" and "pending_built s"
    and "p \<in> set (particles s)" and "ptype (objs s p) = SUBSTRATE" and "\<not> pending s p"
    and "q = random_choice k (nearby_substrates (Shape p) s)"
  shows "(roll < 0.15 \<and> nearby_substrates (Shape p) s \<noteq> [] \<and> \<not> pending s q \<longrightarrow>
            (\<exists>t t'. flush s = Inr t \<and> flush (handle_catalyst_substrate roll k (Shape p) s) = Inr t' \<and>
               p \<in> set (particles t) \<and> q \<in> set (particles t) \<and> p \<noteq> q \<and>
               particles t' = remove1 q (remove1 p (particles t)) @ [next_id s] \<and>
               ptype (objs t' (next_id s)) = LINK \<and>
               position (objs t' (next_id s)) = midpoint_of (pos_of s p) (pos_of s q) \<and>
               length (particles t') + 1 = length (particles t) \<and>
               fst (stats (update_stats t')) + 2 = fst (stats (update_stats t)) \<and>
               fst (snd (stats (update_stats t'))) = fst (snd (stats (update_stats t))) + 1)) \<and>
         (\<not> (roll < 0.15 \<and> nearby_substrates (Shape p) s \<noteq> []) \<longrightarrow>
            handle_catalyst_substrate roll k (Shape p) s = s)"
proof (intro conjI impI)
  assume "\<not> (roll < 0.15 \<and> nearby_substrates (Shape p) s \<noteq> [])"
  then show "handle_catalyst_substrate roll k (Shape p) s = s" by (rule hcs_idle)
next
  assume fire: "roll < 0.15 \<and> nearby_substrates (Shape p) s \<noteq> [] \<and> \<not> pending s q"
  let ?n = "next_id s"
  let ?s' = "handle_catalyst_substrate roll k (Shape p) s"
  let ?pos = "midpoint_of (pos_of s p) (pos_of s q)"
  from fire have r: "roll < 0.15" and ne: "nearby_substrates (Shape p) s \<noteq> []" and nq: "\<not> pending s q"
    by simp_all
  note h = hcs_fields[OF r ne assms(1,7)]
  have s': "?s' = (snd (create_link ?pos s))\<lparr>to_remove := to_remove s @ [(Some (Shape p), None), (Some (Shape q), None)]\<rparr>"
    using h(4) by simp
  from assms(1,4) h(1) have lt: "p < ?n" "q < ?n" and shp: "shape (objs s q) = Shape q"
    by (simp_all add: wf_def built_def)
  with h(3) have pq: "p \<noteq> q" by auto
  from assms(1) have d: "distinct (particles s)" by (simp add: wf_def)
  \<comment> \<open>the flush without the event\<close>
  from wf_flush_particles[OF assms(1,2)] obtain t where
    t: "flush s = Inr t" "objs t = objs s" "particles t = filter (\<lambda>x. \<not> pending s x) (particles s)"
    by blast
  \<comment> \<open>the flush after the event\<close>
  have w': "wf ?s'" using assms(1) by (rule wf_hcs)
  have nb': "no_bond_pending ?s'"
    using assms(2) by (simp add: s' no_bond_pending_def)
  from wf_flush_particles[OF w' nb'] obtain t' where
    t': "flush ?s' = Inr t'" "objs t' = objs ?s'" "particles t' = filter (\<lambda>x. \<not> pending ?s' x) (particles ?s')"
    by blast
  have pend: "pending ?s' x \<longleftrightarrow> pending s x \<or> x = p \<or> x = q" for x
    by (auto simp: s' pending_def)
  from assms(3) have "\<not> pending s ?n" by (auto simp: pending_built_def)
  with lt have fresh: "\<not> pending ?s' ?n" by (simp add: pend)
  have "particles t' = filter (\<lambda>x. \<not> pending ?s' x) (particles s) @ [?n]"
    using fresh by (simp add: t'(3)) (simp add: s')
  also have "filter (\<lambda>x. \<not> pending ?s' x) (particles s) =
      filter (\<lambda>x. x \<noteq> p \<and> x \<noteq> q) (particles t)"
    unfolding t(3) by (auto simp: pend intro: filter_cong)
  also have "\<dots> = remove1 q (remove1 p (particles t))"
  proof -
    from d have "distinct (particles t)" by (simp add: t(3))
    then show ?thesis by (rule filter_two_remove1)
  qed
  finally have parts: "particles t' = remove1 q (remove1 p (particles t)) @ [?n]" .
  have pin: "p \<in> set (particles t)" using assms(4,6) by (simp add: t(3))
  have qin: "q \<in> set (particles t)" using h(1) nq by (simp add: t(3))
  from qin pq have qin': "q \<in> set (remove1 p (particles t))" by simp
  \<comment> \<open>the objects\<close>
  have o_old: "objs t' x = objs t x" if "x \<in> set (particles t)" for x
  proof -
    from that assms(1) have "x < ?n" by (simp add: t(3) wf_def)
    then show ?thesis by (simp add: t'(2) t(2) s')
  qed
  have o_new: "ptype (objs t' ?n) = LINK" "position (objs t' ?n) = ?pos"
    by (simp_all add: t'(2) s')
  \<comment> \<open>the counts\<close>
  have cnt: "length (filter (\<lambda>x. ptype (objs t' x) = T) (particles t')) +
      (if T = SUBSTRATE then 2 else 0) =
      length (filter (\<lambda>x. ptype (objs t x) = T) (particles t)) + (if T = LINK then 1 else 0)" for T
  proof -
    let ?P = "\<lambda>x. ptype (objs t x) = T"
    have "set (remove1 q (remove1 p (particles t))) \<subseteq> set (particles t)"
      by (meson in_set_remove1D subsetI)
    then have "filter (\<lambda>x. ptype (objs t' x) = T) (remove1 q (remove1 p (particles t))) =
        filter ?P (remove1 q (remove1 p (particles t)))"
      using o_old by (intro filter_cong refl) auto
    then have a: "length (filter (\<lambda>x. ptype (objs t' x) = T) (particles t')) =
        length (filter ?P (remove1 q (remove1 p (particles t)))) + (if T = LINK then 1 else 0)"
      using o_new(1) by (auto simp: parts)
    have tp: "ptype (objs t p) = SUBSTRATE" "ptype (objs t q) = SUBSTRATE"
      using assms(5) h(2) by (simp_all add: t(2))
    from length_filter_remove1[OF qin', of ?P] length_filter_remove1[OF pin, of ?P] tp
    have "length (filter ?P (remove1 q (remove1 p (particles t)))) + (if T = SUBSTRATE then 2 else 0) =
        length (filter ?P (particles t))"
      by (auto split: if_splits)
    with a show ?thesis by simp
  qed
  have len: "length (particles t') + 1 = length (particles t)"
  proof -
    have l1: "length (remove1 p (particles t)) = length (particles t) - 1"
      using pin by (simp add: length_remove1)
    have l2: "length (remove1 q (remove1 p (particles t))) = length (remove1 p (particles t)) - 1"
      using qin' by (simp add: length_remove1)
    from qin' have "0 < length (remove1 p (particles t))" by (rule length_pos_if_in_set)
    with l1 l2 show ?thesis by (simp add: parts)
  qed
  from cnt[of SUBSTRATE] have st1: "fst (stats (update_stats t')) + 2 = fst (stats (update_stats t))"
    by (simp add: update_stats_def)
  from cnt[of LINK] have st2: "fst (snd (stats (update_stats t'))) = fst (snd (stats (update_stats t))) + 1"
    by (simp add: update_stats_def)
  show "\<exists>t t'. flush s = Inr t \<and> flush ?s' = Inr t' \<and>
               p \<in> set (particles t) \<and> q \<in> set (particles t) \<and> p \<noteq> q \<and>
               particles t' = remove1 q (remove1 p (particles t)) @ [next_id s] \<and>
               ptype (objs t' (next_id s)) = LINK \<and>
               position (objs t' (next_id s)) = midpoint_of (pos_of s p) (pos_of s q) \<and>
               length (particles t') + 1 = length (particles t) \<and>
               fst (stats (update_stats t')) + 2 = fst (stats (update_stats t)) \<and>
               fst (snd (stats (update_stats t'))) = fst (snd (stats (update_stats t))) + 1"
  proof (intro exI conjI)
    show "flush s = Inr t" by fact
    show "flush ?s' = Inr t'" by fact
    show "p \<in> set (particles t)" by fact
    show "q \<in> set (particles t)" by fact
    show "p \<noteq> q" by fact
    show "particles t' = remove1 q (remove1 p (particles t)) @ [next_id s]" by fact
    show "ptype (objs t' (next_id s)) = LINK" by fact
    show "position (objs t' (next_id s)) = midpoint_of (pos_of s p) (pos_of s q)" by fact
    show "length (particles t') + 1 = length (particles t)" by fact
    show "fst (stats (update_stats t')) + 2 = fst (stats (update_stats t))" by fact
    show "fst (snd (stats (update_stats t'))) = fst (snd (stats (update_stats t))) + 1" by fact
  qed
qed

text \<open>The first reaction after the set-up with every substrate at the centre.\<close>

theorem reaction_conservation_witness:
  "wf crowded \<and> no_bond_pending crowded \<and> pending_built crowded \<and>
   (1::nat) \<in> set (particles crowded) \<and> ptype (objs crowded 1) = SUBSTRATE \<and> \<not> pending crowded 1 \<and>
   (2::nat) = random_choice 0 (nearby_substrates (Shape 1) crowded) \<and>
   (\<exists>t t'. flush crowded = Inr t \<and> flush crowded1 = Inr t' \<and>
      particles t' = remove1 2 (remove1 1 (particles t)) @ [301] \<and>
      length (particles t') + 1 = length (particles t) \<and>
      fst (stats (update_stats t')) + 2 = fst (stats (update_stats t)))"
proof -
  from nearby_crowded obtain rest where n: "nearby_substrates (Shape 1) crowded = 2 # rest" ..
  have a: "no_bond_pending crowded" "pending_built crowded" "\<not> pending crowded 1" "\<not> pending crowded 2"
    by (simp_all add: no_bond_pending_def pending_built_def pending_def crowded_fields del: One_nat_def)
  have b: "(1::nat) \<in> set (particles crowded)" "ptype (objs crowded 1) = SUBSTRATE"
    by (simp_all add: crowded_fields crowded_substrate del: One_nat_def)
  have c: "(2::nat) = random_choice 0 (nearby_substrates (Shape 1) crowded)"
    by (simp add: n del: One_nat_def)
  have d: "(0::real) < 0.15 \<and> nearby_substrates (Shape 1) crowded \<noteq> [] \<and> \<not> pending crowded 2"
    using a(4) by (simp add: n del: One_nat_def)
  from reaction_conservation[OF crowded_fields(1) a(1,2) b a(3) c, of 0] d
  have "\<exists>t t'. flush crowded = Inr t \<and> flush crowded1 = Inr t' \<and>
      particles t' = remove1 2 (remove1 1 (particles t)) @ [301] \<and>
      length (particles t') + 1 = length (particles t) \<and>
      fst (stats (update_stats t')) + 2 = fst (stats (update_stats t))"
    unfolding crowded1_def crowded_fields(2)[symmetric] by blast
  with crowded_fields(1) a b c show ?thesis by blast
qed

section \<open>The stochastic force field\<close>

text \<open>
  Claim C8. \<^verbatim>\<open>apply_brownian_motion\<close> changes nothing of the state but the forces submitted
  to the physics engine: the store of particles (positions, velocities, connections),
  the particle list and the queue are as before. For every particle of the list, in
  order, it submits: nothing for a CATALYST; otherwise the Brownian force, followed,
  exactly when the distance from the centre exceeds 200, by the confinement force, which
  is a positive multiple of the vector from the particle to the centre and has length
  (distance - 200) * 0.5. Coordinates are real numbers here.
\<close>

theorem force_field_frame:
  "apply_brownian_motion gauss s =
     s\<lparr>applied_forces := applied_forces s @ concat (map (submitted_forces gauss s) (particles s))\<rparr> \<and>
   objs (apply_brownian_motion gauss s) = objs s \<and>
   particles (apply_brownian_motion gauss s) = particles s \<and>
   to_remove (apply_brownian_motion gauss s) = to_remove s \<and>
   (ptype (objs s p) = CATALYST \<longrightarrow> submitted_forces gauss s p = []) \<and>
   (ptype (objs s p) \<noteq> CATALYST \<and> \<not> get_distance center (pos_of s p) > 200 \<longrightarrow>
      submitted_forces gauss s p = [(p, gauss p, (0, 0))]) \<and>
   (ptype (objs s p) \<noteq> CATALYST \<and> get_distance center (pos_of s p) > 200 \<longrightarrow>
      submitted_forces gauss s p =
        [(p, gauss p, (0, 0)), (p, confinement_force (pos_of s p), (0, 0))] \<and>
      confinement_force (pos_of s p) =
        vscale (vsub center (pos_of s p))
          ((get_distance center (pos_of s p) - 200) * 0.5 / get_distance center (pos_of s p)) \<and>
      0 < (get_distance center (pos_of s p) - 200) * 0.5 / get_distance center (pos_of s p) \<and>
      vlength (confinement_force (pos_of s p)) = (get_distance center (pos_of s p) - 200) * 0.5)"
proof -
  have eq: "apply_brownian_motion gauss s =
     s\<lparr>applied_forces := applied_forces s @ concat (map (submitted_forces gauss s) (particles s))\<rparr>"
    unfolding apply_brownian_motion_def by (rule fold_brownian_closed_form)
  have frame: "objs (apply_brownian_motion gauss s) = objs s"
    "particles (apply_brownian_motion gauss s) = particles s"
    "to_remove (apply_brownian_motion gauss s) = to_remove s"
    by (simp_all add: eq)
  have far: "confinement_force (pos_of s p) =
        vscale (vsub center (pos_of s p))
          ((get_distance center (pos_of s p) - 200) * 0.5 / get_distance center (pos_of s p)) \<and>
      0 < (get_distance center (pos_of s p) - 200) * 0.5 / get_distance center (pos_of s p) \<and>
      vlength (confinement_force (pos_of s p)) = (get_distance center (pos_of s p) - 200) * 0.5"
    if "get_distance center (pos_of s p) > 200"
    using that confinement_direction[OF that] confinement_magnitude[OF that] by simp
  have sub: "ptype (objs s p) = CATALYST \<longrightarrow> submitted_forces gauss s p = []"
    "ptype (objs s p) \<noteq> CATALYST \<and> \<not> get_distance center (pos_of s p) > 200 \<longrightarrow>
      submitted_forces gauss s p = [(p, gauss p, (0, 0))]"
    "ptype (objs s p) \<noteq> CATALYST \<and> get_distance center (pos_of s p) > 200 \<longrightarrow>
      submitted_forces gauss s p =
        [(p, gauss p, (0, 0)), (p, confinement_force (pos_of s p), (0, 0))]"
    by (simp_all add: submitted_forces_def)
  from eq frame far sub show ?thesis by blast
qed

text \<open>One substrate at (700, 400), at distance 300 from the centre (400, 400).\<close>

theorem force_field_frame_witness:
  "ptype (objs outlier 0) \<noteq> CATALYST \<and> get_distance center (pos_of outlier 0) > 200 \<and>
   applied_forces (apply_brownian_motion gauss_zero outlier) =
     [(0, (0, 0), (0, 0)), (0, (-50, 0), (0, 0))] \<and>
   vlength (confinement_force (pos_of outlier 0)) = 50"
proof -
  have f: "ptype (objs outlier 0) = SUBSTRATE" "pos_of outlier 0 = (700, 400)" "particles outlier = [0]"
    "applied_forces outlier = []"
    by (simp_all add: outlier_def add_particle_def new_Particle_def empty_simulation_def pos_of_def)
  have d: "get_distance center (pos_of outlier 0) = 300"
    by (simp add: f center_def get_distance_horizontal)
  have c: "confinement_force (700, 400) = (-50, 0)"
    using d by (simp add: f confinement_force_def normalized_def vsub_def vscale_def center_def vlength_horizontal)
  have h: "ptype (objs outlier 0) \<noteq> CATALYST \<and> get_distance center (pos_of outlier 0) > 200"
    unfolding d by (simp add: f(1))
  note t = force_field_frame[of gauss_zero outlier 0]
  from t have a: "apply_brownian_motion gauss_zero outlier =
      outlier\<lparr>applied_forces := applied_forces outlier @
        concat (map (submitted_forces gauss_zero outlier) (particles outlier))\<rparr>" by blast
  from t h have b: "submitted_forces gauss_zero outlier 0 =
      [(0, gauss_zero 0, (0, 0)), (0, confinement_force (pos_of outlier 0), (0, 0))]"
    and l: "vlength (confinement_force (pos_of outlier 0)) =
      (get_distance center (pos_of outlier 0) - 200) * 0.5" by blast+
  have "applied_forces (apply_brownian_motion gauss_zero outlier) =
     [(0, (0, 0), (0, 0)), (0, (-50, 0), (0, 0))]"
    by (simp add: a f(3,4) b) (simp add: f(2) c gauss_zero_def)
  moreover have "vlength (confinement_force (pos_of outlier 0)) = 50"
    unfolding l d by simp
  ultimately show ?thesis using h by blast
qed

section \<open>Boundary containment\<close>

text \<open>
  Claim C6. For a particle of the list of a well-formed state (radius 8 or 12), after
  \<^verbatim>\<open>handle_boundary_collision\<close>: when its distance from the centre was at least 200 minus
  its radius, its distance is exactly 200 minus its radius, its offset from the centre is
  a positive multiple of the old offset (same radial direction) and its velocity is
  negated; otherwise the particle is unchanged; in both cases its distance from the
  centre is at most 200. Coordinates are real numbers here, so the tolerance is zero.
\<close>

theorem boundary_containment:
  assumes "wf s" and "p \<in> set (particles s)"
  shows "(get_distance center (pos_of s p) \<ge> 200 - radius (objs s p) \<longrightarrow>
            get_distance center (pos_of (handle_boundary_collision s) p) = 200 - radius (objs s p) \<and>
            vsub (pos_of (handle_boundary_collision s) p) center =
              vscale (vsub (pos_of s p) center)
                ((200 - radius (objs s p)) / get_distance center (pos_of s p)) \<and>
            0 < (200 - radius (objs s p)) / get_distance center (pos_of s p) \<and>
            velocity (objs (handle_boundary_collision s) p) = vneg (velocity (objs s p))) \<and>
         (\<not> get_distance center (pos_of s p) \<ge> 200 - radius (objs s p) \<longrightarrow>
            objs (handle_boundary_collision s) p = objs s p) \<and>
         get_distance center (pos_of (handle_boundary_collision s) p) \<le> 200"
proof -
  let ?t = "handle_boundary_collision s"
  let ?r = "radius (objs s p)"
  let ?d = "get_distance center (pos_of s p)"
  from assms have "distinct (particles s)" and b: "built p (objs s p)" by (simp_all add: wf_def)
  with assms(2) have at: "objs ?t p = objs (boundary_collision p s) p"
    by (simp add: handle_boundary_collision_def fold_boundary_at)
  from b have r: "?r = 8 \<or> ?r = 12" by (auto simp: built_def split: if_splits)
  then have k: "0 < 200 - ?r" "200 - ?r \<le> 200" by auto
  show ?thesis
  proof (cases "?d \<ge> 200 - ?r")
    case True
    have pos: "pos_of ?t p = vadd center (vscale (normalized (vsub (pos_of s p) center)) (200 - ?r))"
      and vel: "velocity (objs ?t p) = vneg (velocity (objs s p))"
      using True by (simp_all add: at boundary_collision_at pos_of_def)
    from clamp_geometry[OF k(1) True] k(2) True vel show ?thesis
      unfolding pos by simp
  next
    case False
    then have same: "objs ?t p = objs s p" by (simp add: at boundary_collision_at)
    then have "pos_of ?t p = pos_of s p" by (simp add: pos_of_def)
    with False k same show ?thesis by simp
  qed
qed

text \<open>
  A substrate (radius 8) pushed to (650, 400), at distance 250 from the centre, with
  velocity (3, 4): it is put back at distance 192 and its velocity becomes (-3, -4).
\<close>

theorem boundary_containment_witness:
  "wf pushed \<and> (0::nat) \<in> set (particles pushed) \<and>
   get_distance center (pos_of pushed 0) \<ge> 200 - radius (objs pushed 0) \<and>
   get_distance center (pos_of (handle_boundary_collision pushed) 0) = 192 \<and>
   velocity (objs (handle_boundary_collision pushed) 0) = (-3, -4)"
proof -
  have o: "wf outlier" unfolding outlier_def by (intro wf_add_particle wf_empty)
  then have w: "wf pushed" unfolding pushed_def by (rule wf_move)
  have f: "particles pushed = [0]" "pos_of pushed 0 = (650, 400)" "velocity (objs pushed 0) = (3, 4)"
    "radius (objs pushed 0) = 8"
    by (simp_all add: pushed_def move_bodies_def push_def outlier_def add_particle_def new_Particle_def
          empty_simulation_def pos_of_def)
  have d: "get_distance center (pos_of pushed 0) = 250"
    by (simp add: f center_def get_distance_horizontal)
  have m: "(0::nat) \<in> set (particles pushed)" by (simp add: f)
  have h: "get_distance center (pos_of pushed 0) \<ge> 200 - radius (objs pushed 0)"
    unfolding d by (simp add: f)
  from boundary_containment[OF w m] h
  have "get_distance center (pos_of (handle_boundary_collision pushed) 0) = 200 - radius (objs pushed 0)"
    "velocity (objs (handle_boundary_collision pushed) 0) = vneg (velocity (objs pushed 0))"
    by blast+
  then have "get_distance center (pos_of (handle_boundary_collision pushed) 0) = 192"
    "velocity (objs (handle_boundary_collision pushed) 0) = (-3, -4)"
    by (simp_all add: f vneg_def)
  with w m h show ?thesis by blast
qed

section \<open>Disintegration of a link\<close>

text \<open>
  Claim C1 on a concrete tick. Two bonded links, 0 at (400, 400) with age 1000 and 1 at
  (410, 400), in a tick without collision events in which the roll of link 0 succeeds.
  The code removes link 0 from the list and from the connections of link 1, and builds
  two substrates at (410, 400) and (390, 400): objects 2 and 3 of the store. But they are
  not appended to the list \<^verbatim>\<open>particles\<close>, which goes from 2 entries to 1 where the claim
  has 3, and the statistics count 0 substrates; and the bond stays in the list
  \<^verbatim>\<open>bonds\<close>, which the claim has removed.
\<close>

theorem disintegration_tick:
  "\<exists>t. tick [] gauss_zero roll_zero aged_pair = Inr t \<and>
       particles aged_pair = [0, 1] \<and> particles t = [1] \<and> stats t = (0, 1, 1) \<and>
       length (bonds aged_pair) = 1 \<and> length (bonds t) = 1 \<and>
       conns aged_pair 1 = [0] \<and> conns t 1 = [] \<and> next_id t = 4 \<and>
       ptype (objs t 2) = SUBSTRATE \<and> position (objs t 2) = (410, 400) \<and>
       ptype (objs t 3) = SUBSTRATE \<and> position (objs t 3) = (390, 400)"
proof -
  from aged_pair2_disintegration obtain t3 where
    t3: "handle_disintegration roll_zero aged_pair2 = Inr t3" "particles t3 = [0, 1]" "next_id t3 = 4"
     "length (bonds t3) = 1" "to_remove t3 = [(Some (Shape 0), None)]" "conns t3 1 = []"
     "ptype (objs t3 1) = LINK"
     "ptype (objs t3 2) = SUBSTRATE" "position (objs t3 2) = (410, 400)"
     "ptype (objs t3 3) = SUBSTRATE" "position (objs t3 3) = (390, 400)"
    by blast
  let ?s5 = "handle_boundary_collision t3"
  have w3: "wf t3" using aged_pair2_fields(1) t3(1) by (rule wf_disintegration)
  then have w5: "wf ?s5" by (rule wf_boundary)
  have f5: "particles ?s5 = [0, 1]" "next_id ?s5 = 4" "length (bonds ?s5) = 1"
    "to_remove ?s5 = [(Some (Shape 0), None)]" "connections (objs ?s5 1) = []"
    "objs ?s5 2 = objs t3 2" "objs ?s5 3 = objs t3 3"
    using t3 by (simp_all add: hbc_fields conns_def)
  have "static (objs ?s5 1) = static (objs t3 1)"
    by (rule hbc_fields)
  with t3(7) have l5: "ptype (objs ?s5 1) = LINK" by (simp add: static_def)
  have nb: "no_bond_pending ?s5" by (simp add: no_bond_pending_def f5)
  from wf_flush_particles[OF w5 nb] obtain t5 where
    t5: "flush ?s5 = Inr t5" "objs t5 = objs ?s5" "next_id t5 = next_id ?s5" "bonds t5 = bonds ?s5"
      "particles t5 = filter (\<lambda>q. \<not> pending ?s5 q) (particles ?s5)"
    by blast
  have p5: "particles t5 = [1]" by (simp add: t5(5) f5 pending_def)
  have run: "tick [] gauss_zero roll_zero aged_pair = Inr (update_stats t5)"
    by (simp add: tick_def Let_def aged_pair2_def[symmetric] t3(1) t5(1))
  have "stats (update_stats t5) = (0, 1, 1)"
    by (simp add: update_stats_def p5 t5 l5 f5)
  moreover have "particles (update_stats t5) = [1]" "length (bonds (update_stats t5)) = 1"
    "conns (update_stats t5) 1 = []" "next_id (update_stats t5) = 4"
    "objs (update_stats t5) 2 = objs t3 2" "objs (update_stats t5) 3 = objs t3 3"
    by (simp_all add: update_stats_def p5 t5 f5 conns_def)
  ultimately show ?thesis
    unfolding run using t3(8-11) aged_pair_fields(2,9,10) by simp
qed

end
